theory Spec2Isabelle
  imports Complex_Main "HOL-Library.Multiset"
begin

section \<open>Vocabulary and tokenizer (\<open>gpt_vocab\<close>, \<open>gpt_tokenize\<close>)\<close>

text \<open>
  \<open>struct gpt_vocab\<close> holds two \<open>std::map\<close>s. Token ids are \<open>int32_t\<close>; every id
  the program handles is an index into the vocabulary, so they are modelled as \<open>int\<close>.
  A \<open>std::string\<close> is a byte string, a \<open>string\<close> here.
\<close>

record gpt_vocab =
  token_to_id :: "string \<rightharpoonup> int"
  id_to_token :: "int \<rightharpoonup> string"

subsection \<open>The word-splitting pattern\<close>

text \<open>
  \<open>gpt_tokenize\<close> first splits the text with \<open>std::regex\<close> (ECMAScript grammar) and
  the pattern
  \<^verbatim>\<open>'s|'t|'re|'ve|'m|'ll|'d| ?[[:alpha:]]+| ?[[:digit:]]+| ?[^\s[:alpha:][:digit:]]+|\s+(?!\S)|\s+\<close>
  The character classes are those of the classic "C" locale. An ECMAScript alternation
  takes the first alternative that matches at a position, and a greedy quantifier gives
  characters back only as far as is needed for the rest of its alternative to match.
  Each alternative below returns the length of its match at the front of the string.
\<close>

definition is_alpha :: "char \<Rightarrow> bool" where
  "is_alpha c = (let n = (of_char c :: nat) in (65 \<le> n \<and> n \<le> 90) \<or> (97 \<le> n \<and> n \<le> 122))"

definition is_digit :: "char \<Rightarrow> bool" where
  "is_digit c = (let n = (of_char c :: nat) in 48 \<le> n \<and> n \<le> 57)"

definition is_space :: "char \<Rightarrow> bool" where
  "is_space c = (let n = (of_char c :: nat) in n = 32 \<or> (9 \<le> n \<and> n \<le> 13))"

definition is_other :: "char \<Rightarrow> bool" where
  "is_other c = (\<not> is_space c \<and> \<not> is_alpha c \<and> \<not> is_digit c)"

definition apostrophe :: char where
  "apostrophe = CHR 0x27"

definition literal :: "string \<Rightarrow> string \<Rightarrow> nat option" where
  "literal p s = (if take (length p) s = p then Some (length p) else None)"

definition orelse :: "nat option \<Rightarrow> nat option \<Rightarrow> nat option" where
  "orelse a b = (case a of Some n \<Rightarrow> Some n | None \<Rightarrow> b)"

definition class_run :: "(char \<Rightarrow> bool) \<Rightarrow> string \<Rightarrow> nat" where
  "class_run P s = length (takeWhile P s)"

text \<open>\<^verbatim>\<open> ?[C]+\<close>: the optional space is taken when a run of the class follows it;
  otherwise the run has to start at once.\<close>

definition opt_space_run :: "(char \<Rightarrow> bool) \<Rightarrow> string \<Rightarrow> nat option" where
  "opt_space_run P s =
     (if s \<noteq> [] \<and> hd s = CHR '' '' \<and> 0 < class_run P (tl s) then Some (Suc (class_run P (tl s)))
      else if 0 < class_run P s then Some (class_run P s)
      else None)"

text \<open>\<^verbatim>\<open>\s+(?!\S)\<close>: the longest run of white space after which no non-space
  character stands. The whole run when it ends the string; the run less its last
  character when that leaves at least one.\<close>

definition space_lookahead :: "string \<Rightarrow> nat option" where
  "space_lookahead s =
     (let k = class_run is_space s in
      if k = 0 then None
      else if k = length s then Some k
      else if 2 \<le> k then Some (k - 1)
      else None)"

definition space_run :: "string \<Rightarrow> nat option" where
  "space_run s = (let k = class_run is_space s in if 0 < k then Some k else None)"

definition match_here :: "string \<Rightarrow> nat option" where
  "match_here s =
     orelse (literal [apostrophe, CHR ''s''] s)
    (orelse (literal [apostrophe, CHR ''t''] s)
    (orelse (literal [apostrophe, CHR ''r'', CHR ''e''] s)
    (orelse (literal [apostrophe, CHR ''v'', CHR ''e''] s)
    (orelse (literal [apostrophe, CHR ''m''] s)
    (orelse (literal [apostrophe, CHR ''l'', CHR ''l''] s)
    (orelse (literal [apostrophe, CHR ''d''] s)
    (orelse (opt_space_run is_alpha s)
    (orelse (opt_space_run is_digit s)
    (orelse (opt_space_run is_other s)
    (orelse (space_lookahead s)
            (space_run s)))))))))))"

text \<open>\<open>std::regex_search\<close>: the leftmost position with a match, as (prefix length,
  match length).\<close>

fun regex_search :: "string \<Rightarrow> (nat \<times> nat) option" where
  "regex_search [] = None"
| "regex_search (c # cs) =
     (case match_here (c # cs) of
        Some n \<Rightarrow> Some (0, n)
      | None \<Rightarrow> (case regex_search cs of Some (p, n) \<Rightarrow> Some (Suc p, n) | None \<Rightarrow> None))"

lemma class_run_le: "class_run P s \<le> length s"
  by (simp add: class_run_def length_takeWhile_le)

lemma literal_bounds: "literal p s = Some n \<Longrightarrow> p \<noteq> [] \<Longrightarrow> 0 < n \<and> n \<le> length s"
  by (auto simp: literal_def split: if_splits)

lemma opt_space_run_bounds: "opt_space_run P s = Some n \<Longrightarrow> 0 < n \<and> n \<le> length s"
proof -
  assume a: "opt_space_run P s = Some n"
  show ?thesis
  proof (cases "s \<noteq> [] \<and> hd s = CHR '' '' \<and> 0 < class_run P (tl s)")
    case True
    then have n: "n = Suc (class_run P (tl s))"
      using a by (simp add: opt_space_run_def)
    have "class_run P (tl s) \<le> length (tl s)" by (rule class_run_le)
    with True n show ?thesis by (cases s) auto
  next
    case False
    then have "0 < class_run P s \<and> n = class_run P s"
      using a by (auto simp: opt_space_run_def split: if_splits)
    then show ?thesis using class_run_le [of P s] by simp
  qed
qed

lemma space_lookahead_bounds: "space_lookahead s = Some n \<Longrightarrow> 0 < n \<and> n \<le> length s"
proof -
  assume a: "space_lookahead s = Some n"
  define k where "k = class_run is_space s"
  have k: "k \<le> length s" unfolding k_def by (rule class_run_le)
  from a have "k \<noteq> 0 \<and> (n = k \<or> (2 \<le> k \<and> n = k - 1))"
    unfolding space_lookahead_def k_def [symmetric] Let_def by (simp split: if_splits)
  with k show ?thesis by arith
qed

lemma space_run_bounds: "space_run s = Some n \<Longrightarrow> 0 < n \<and> n \<le> length s"
  using class_run_le [of is_space s]
  by (auto simp: space_run_def Let_def split: if_splits)

lemma orelse_Some: "orelse a b = Some n \<Longrightarrow> a = Some n \<or> b = Some n"
  by (cases a) (auto simp: orelse_def)

lemma match_here_bounds: "match_here s = Some n \<Longrightarrow> 0 < n \<and> n \<le> length s"
  unfolding match_here_def
  by (auto dest!: orelse_Some dest: literal_bounds opt_space_run_bounds
        space_lookahead_bounds space_run_bounds)

lemma regex_search_bounds: "regex_search s = Some (p, n) \<Longrightarrow> 0 < n \<and> p + n \<le> length s"
proof (induction s arbitrary: p n)
  case Nil
  then show ?case by simp
next
  case (Cons c cs)
  show ?case
  proof (cases "match_here (c # cs)")
    case (Some m)
    with Cons.prems have "p = 0" "n = m" by auto
    with match_here_bounds [OF Some] show ?thesis by simp
  next
    case None
    with Cons.prems obtain q where q: "regex_search cs = Some (q, n)" "p = Suc q"
      by (auto split: option.splits)
    from Cons.IH [OF q(1)] q(2) show ?thesis by simp
  qed
qed

text \<open>
  The loop \<^verbatim>\<open>while (std::regex_search(str, m, re)) { for (auto x : m) words.push_back(x); str = m.suffix(); }\<close>.
  The pattern has no capture group, so \<open>m\<close> holds the whole match only.
\<close>

function split_words :: "string \<Rightarrow> string list" where
  "split_words str =
     (case regex_search str of
        None \<Rightarrow> []
      | Some (p, n) \<Rightarrow> take n (drop p str) # split_words (drop (p + n) str))"
  by pat_completeness auto
termination
proof (relation "measure length")
  show "wf (measure length)" by simp
next
  fix str :: string and x2 p n
  assume "regex_search str = Some x2" and "(p, n) = x2"
  then have "regex_search str = Some (p, n)" by simp
  from regex_search_bounds [OF this]
  show "(drop (p + n) str, str) \<in> measure length" by auto
qed

declare split_words.simps [simp del]

subsection \<open>Greedy longest match inside a word\<close>

definition substr :: "string \<Rightarrow> nat \<Rightarrow> nat \<Rightarrow> string" where
  "substr word pos len = take len (drop pos word)"

text \<open>The inner loop \<^verbatim>\<open>while (j > i) { find word.substr(i, j - i); ...; --j; }\<close>:
  the value of \<open>j\<close> when the loop is left, and the id found (if one was).\<close>

fun find_longest :: "(string \<rightharpoonup> int) \<Rightarrow> string \<Rightarrow> nat \<Rightarrow> nat \<Rightarrow> nat \<times> int option" where
  "find_longest t word i 0 = (0, None)"
| "find_longest t word i (Suc j) =
     (if i < Suc j then
        (case t (substr word i (Suc j - i)) of
           Some v \<Rightarrow> (Suc j, Some v)
         | None \<Rightarrow> find_longest t word i j)
      else (Suc j, None))"

text \<open>
  One pass through the body of \<^verbatim>\<open>while (i < n)\<close>, entered with \<open>i < n\<close>. The result is
  the new \<open>i\<close>, the ids pushed, the diagnostics written to \<open>stderr\<close> (the unknown
  one-character substrings) and whether the loop was left by \<^verbatim>\<open>break\<close>.
\<close>

definition tok_step :: "(string \<rightharpoonup> int) \<Rightarrow> string \<Rightarrow> nat \<Rightarrow> nat \<times> int list \<times> string list \<times> bool" where
  "tok_step t word i =
     (let n = length word;
          r = find_longest t word i n;
          j = fst r;
          pushed = (case snd r of Some v \<Rightarrow> [v] | None \<Rightarrow> []);
          i1 = (case snd r of Some v \<Rightarrow> j | None \<Rightarrow> i)
      in if i1 = n then (i1, pushed, [], True)
         else if j = i1 then
           (let sub = substr word i1 1 in
            case t sub of
              Some v \<Rightarrow> (i1 + 1, pushed @ [v], [], False)
            | None \<Rightarrow> (i1 + 1, pushed, [sub], False))
         else (i1, pushed, [], False))"

lemma find_longest_None: "snd (find_longest t word i j) = None \<Longrightarrow> i \<le> j \<Longrightarrow> fst (find_longest t word i j) = i"
  by (induction j) (auto split: option.splits if_splits simp: le_Suc_eq)

lemma find_longest_Some: "snd (find_longest t word i j) = Some v \<Longrightarrow> i < fst (find_longest t word i j) \<and> fst (find_longest t word i j) \<le> j"
  by (induction j) (auto split: option.splits if_splits)

lemma tok_step_advances:
  assumes "i < length word" and "tok_step t word i = (i', pushed, diag, brk)"
  shows "i < i'"
proof (cases "snd (find_longest t word i (length word))")
  case None
  with find_longest_None [of t word i "length word"] assms(1)
  have "fst (find_longest t word i (length word)) = i" by simp
  with None assms show ?thesis
    by (auto simp: tok_step_def Let_def split: option.splits if_splits)
next
  case (Some v)
  from find_longest_Some [OF Some] Some assms show ?thesis
    by (auto simp: tok_step_def Let_def split: option.splits if_splits)
qed

function tokenize_from :: "(string \<rightharpoonup> int) \<Rightarrow> string \<Rightarrow> nat \<Rightarrow> int list \<Rightarrow> string list \<Rightarrow> int list \<times> string list" where
  "tokenize_from t word i tokens diag =
     (if i < length word then
        (case tok_step t word i of
           (i', pushed, unknown, brk) \<Rightarrow>
             if brk then (tokens @ pushed, diag @ unknown)
             else tokenize_from t word i' (tokens @ pushed) (diag @ unknown))
      else (tokens, diag))"
  by pat_completeness auto
termination
proof (relation "measure (\<lambda>(t, word, i, tokens, diag). length word - i)")
  show "wf (measure (\<lambda>(t, word, i, tokens, diag). length word - i))" by simp
next
  fix t :: "string \<rightharpoonup> int" and word i and tokens :: "int list" and diag :: "string list"
    and x i' y pushed z unknown brk
  assume lt: "i < length word" and a: "(i', y) = tok_step t word i" "(pushed, z) = y" "(unknown, brk) = z"
  then have "tok_step t word i = (i', pushed, unknown, brk)" by simp
  from tok_step_advances [OF lt this] lt
  show "((t, word, i', tokens @ pushed, diag @ unknown), (t, word, i, tokens, diag))
        \<in> measure (\<lambda>(t, word, i, tokens, diag). length word - i)" by simp
qed

declare tokenize_from.simps [simp del]

text \<open>\<open>gpt_tokenize\<close>: the words in order, empty words skipped. The model also returns
  what the function writes to \<open>stderr\<close>.\<close>

definition tokenize_words :: "(string \<rightharpoonup> int) \<Rightarrow> string list \<Rightarrow> int list \<times> string list" where
  "tokenize_words t words =
     foldl (\<lambda>acc word. if word = [] then acc else tokenize_from t word 0 (fst acc) (snd acc))
       ([], []) words"

definition gpt_tokenize_log :: "gpt_vocab \<Rightarrow> string \<Rightarrow> int list \<times> string list" where
  "gpt_tokenize_log vocab text = tokenize_words (token_to_id vocab) (split_words text)"

definition gpt_tokenize :: "gpt_vocab \<Rightarrow> string \<Rightarrow> int list" where
  "gpt_tokenize vocab text = fst (gpt_tokenize_log vocab text)"

text \<open>A \<^verbatim>\<open>const char *\<close> read as a string ends at its first NUL byte.\<close>

definition c_str :: "string \<Rightarrow> string" where
  "c_str s = takeWhile (\<lambda>c. c \<noteq> CHR 0x00) s"

section \<open>Sampler (\<open>gpt_sample_top_k_top_p\<close>)\<close>

text \<open>
  Scores are \<open>float\<close> and \<open>double\<close> in the source; the model computes with real
  numbers, so rounding, infinities and NaN are outside it. A run on which the source
  would produce an IEEE infinity (division by a zero temperature) ends in \<open>Not_Finite\<close>,
  and a run on which the source leaves defined C++ (an iterator or index out of range,
  a signed overflow, the use of a variable that was never written) ends in
  \<open>Undefined_Behaviour\<close>. \<open>Uncaught_Exception\<close> is a C++ exception that leaves the
  function.
\<close>

datatype fault = Undefined_Behaviour | Not_Finite | Uncaught_Exception

text \<open>
  The C++ standard library and the tensor library ggml are not part of the repository's
  sources. What the program calls of them is a field of this record; \<open>'r\<close> is the
  state of the random number generator \<open>std::mt19937\<close>.
  \<^item> \<open>partial_sort k xs\<close> is \<^verbatim>\<open>std::partial_sort(xs.begin(), xs.begin() + k, xs.end(), cmp)\<close>
    with the comparator \<^verbatim>\<open>a.first > b.first\<close> of the sampler;
  \<^item> \<open>discrete_distribution ps r\<close> is one draw of \<^verbatim>\<open>std::discrete_distribution<>\<close> with
    weights \<open>ps\<close>, and the generator's next state;
  \<^item> \<open>mt19937 seed\<close> is the generator seeded with \<open>seed\<close>, \<open>time_null\<close> the value of
    \<^verbatim>\<open>time(NULL)\<close>;
  \<^item> \<open>graph_compute model hist n_past batch\<close> is the logits ggml computes for the last
    position of \<open>batch\<close>; it reads the weights and the key/value memory, which the
    earlier evaluator calls \<open>hist\<close> (position, batch) have written;
  \<^item> \<open>ggml_used_mem N\<close> is \<^verbatim>\<open>ggml_used_mem(ctx0)\<close> after the graph for \<open>N\<close> tokens was
    built, \<open>realloc_ok n\<close> tells whether \<^verbatim>\<open>realloc(buf, n)\<close> succeeds, and \<open>grow n\<close> is
    the \<open>size_t\<close> value of the \<open>double\<close> product \<^verbatim>\<open>1.1 * n\<close>.
\<close>

record 'r extern =
  partial_sort :: "nat \<Rightarrow> (real \<times> int) list \<Rightarrow> (real \<times> int) list"
  discrete_distribution :: "real list \<Rightarrow> 'r \<Rightarrow> nat \<times> 'r"
  mt19937 :: "int \<Rightarrow> 'r"
  time_null :: int
  ggml_used_mem :: "nat \<Rightarrow> nat"
  realloc_ok :: "nat \<Rightarrow> bool"
  grow :: "nat \<Rightarrow> nat"

text \<open>What the C++ standard promises of \<open>std::partial_sort\<close> with this comparator: the
  result is a rearrangement, its first \<open>k\<close> elements are in descending order of score,
  and no later element has a higher score than one of them. The order of elements with
  equal scores is not specified.\<close>

definition partial_sort_spec :: "(nat \<Rightarrow> (real \<times> int) list \<Rightarrow> (real \<times> int) list) \<Rightarrow> bool" where
  "partial_sort_spec ps =
     (\<forall>k xs. k \<le> length xs \<longrightarrow>
        mset (ps k xs) = mset xs \<and>
        sorted (rev (map fst (take k (ps k xs)))) \<and>
        (\<forall>a \<in> set (take k (ps k xs)). \<forall>b \<in> set (drop k (ps k xs)). fst b \<le> fst a))"

text \<open>What it promises of \<open>std::discrete_distribution\<close>: an index below the number of
  weights.\<close>

definition discrete_distribution_spec :: "(real list \<Rightarrow> 'r \<Rightarrow> nat \<times> 'r) \<Rightarrow> bool" where
  "discrete_distribution_spec dd = (\<forall>ps r. ps \<noteq> [] \<longrightarrow> fst (dd ps r) < length ps)"

text \<open>The pairs \<^verbatim>\<open>(logits[i] * scale, i)\<close> for \<open>i < n_logits\<close>, with \<^verbatim>\<open>scale = 1.0 / temp\<close>.\<close>

definition scaled_logits :: "real list \<Rightarrow> nat \<Rightarrow> real \<Rightarrow> (real \<times> int) list" where
  "scaled_logits logits n_logits temp =
     map (\<lambda>i. (logits ! i * (1 / temp), int i)) [0..<n_logits]"

text \<open>\<^verbatim>\<open>double maxl = -INFINITY; for (kv : logits_id) maxl = std::max(maxl, kv.first);\<close>
  with \<open>None\<close> for minus infinity.\<close>

definition max_logit :: "(real \<times> int) list \<Rightarrow> real option" where
  "max_logit logits_id =
     foldl (\<lambda>maxl kv. Some (case maxl of None \<Rightarrow> fst kv | Some m \<Rightarrow> max m (fst kv))) None logits_id"

text \<open>
  The loop \<^verbatim>\<open>for (i = 0; i < top_k; i++) { cumsum += probs[i]; if (cumsum >= top_p) { top_k = i + 1; ...; break; } }\<close>
  over the \<open>top_k\<close> entries of \<open>probs\<close>: the new \<open>top_k\<close> when the loop was left by
  \<^verbatim>\<open>break\<close>, and the final \<open>cumsum\<close>.
\<close>

fun top_p_cut :: "real list \<Rightarrow> real \<Rightarrow> nat \<Rightarrow> real \<Rightarrow> nat option \<times> real" where
  "top_p_cut [] top_p i cumsum = (None, cumsum)"
| "top_p_cut (p # ps) top_p i cumsum =
     (if top_p \<le> cumsum + p then (Some (i + 1), cumsum + p)
      else top_p_cut ps top_p (i + 1) (cumsum + p))"

definition gpt_sample_top_k_top_p ::
  "'r extern \<Rightarrow> gpt_vocab \<Rightarrow> real list \<Rightarrow> int \<Rightarrow> real \<Rightarrow> real \<Rightarrow> 'r \<Rightarrow> fault + (int \<times> 'r)" where
  "gpt_sample_top_k_top_p ext vocab logits top_k top_p temp rng =
     (let n_logits = card (dom (id_to_token vocab)) in
      if temp = 0 then Inl Not_Finite
      else if top_k < 1 \<or> int n_logits < top_k \<or> length logits < n_logits then Inl Undefined_Behaviour
      else
        (let k = nat top_k;
             logits_id = take k (partial_sort ext k (scaled_logits logits n_logits temp));
             maxl = (case max_logit logits_id of Some m \<Rightarrow> m | None \<Rightarrow> 0);
             exps = map (\<lambda>kv. exp (fst kv - maxl)) logits_id;
             total = sum_list exps;
             probs = map (\<lambda>p. p / total) exps;
             cut = top_p_cut probs top_p 0 0;
             k' = (if top_p < 1 then (case fst cut of Some k2 \<Rightarrow> k2 | None \<Rightarrow> k) else k);
             probs' = (if top_p < 1 then map (\<lambda>p. p * (1 / snd cut)) (take k' probs) else probs);
             logits_id' = take k' logits_id;
             draw = discrete_distribution ext probs' rng
         in if fst draw < length logits_id' then Inr (snd (logits_id' ! fst draw), snd draw)
            else Inl Undefined_Behaviour))"

section \<open>Model data (\<open>gptj_params\<close>, \<open>gptj_hparams\<close>, \<open>gptj_model\<close>)\<close>

record gptj_params =
  seed :: int
  n_threads :: int
  n_predict :: int
  top_k :: int
  top_p :: real
  temp :: real
  n_batch :: int

record gptj_hparams =
  n_vocab :: int
  n_ctx :: int
  n_embd :: int
  n_head :: int
  n_layer :: int
  n_rot :: int
  ftype :: int

text \<open>The tensor types of \<open>ggml.h\<close>. A tensor is its type, its four extents
  \<open>ne[0]\<close>, ..., \<open>ne[3]\<close> and its data bytes.\<close>

datatype ggml_type =
    GGML_TYPE_F32 | GGML_TYPE_F16 | GGML_TYPE_Q4_0 | GGML_TYPE_Q4_1 | GGML_TYPE_Q4_2
  | GGML_TYPE_Q5_0 | GGML_TYPE_Q5_1 | GGML_TYPE_Q8_0 | GGML_TYPE_Q8_1
  | GGML_TYPE_I8 | GGML_TYPE_I16 | GGML_TYPE_I32 | GGML_TYPE_COUNT

record ggml_tensor =
  tensor_type :: ggml_type
  ne0 :: int
  ne1 :: int
  ne2 :: int
  ne3 :: int
  tensor_data :: string

text \<open>
  \<open>struct gptj_model\<close>. Its pointer fields (\<open>wte\<close>, \<open>ln_f_g\<close>, \<open>layers[i].ln_1_g\<close>, ...)
  point to the tensors that \<open>tensors\<close> holds by name, so the model keeps the map only.
  \<open>ctx\<close> is the ggml context of the weights: \<open>None\<close> until \<open>ggml_init\<close> has made it,
  then the size of its memory.
\<close>

record gptj_model =
  hparams :: gptj_hparams
  tensors :: "string \<rightharpoonup> ggml_tensor"
  memory_k :: "ggml_tensor option"
  memory_v :: "ggml_tensor option"
  ctx :: "nat option"

record gptj_model_context =
  vocab :: gpt_vocab
  model :: gptj_model

text \<open>An \<open>int\<close> converted to \<open>size_t\<close> (64 bits), and the largest \<open>int\<close>.\<close>

definition size_t :: "int \<Rightarrow> nat" where
  "size_t x = nat (x mod 2 ^ 64)"

definition INT_MAX :: nat where
  "INT_MAX = 2 ^ 31 - 1"

section \<open>Model loader (\<open>gptj_model_load\<close>)\<close>

subsection \<open>The input stream\<close>

text \<open>
  \<open>std::ifstream\<close> in binary mode: the bytes of the file, the read position and the
  error state. A read that finds fewer bytes than asked for stores the bytes it found
  and sets \<open>eofbit\<close> and \<open>failbit\<close>; a read on a stream in that state stores nothing.
  Nothing else in the loader changes the state, so one flag stands for both bits:
  \<open>fin.eof()\<close> is \<open>file_failed\<close>.
  \<open>fin_read fin n buf\<close> is \<^verbatim>\<open>fin.read(buf, n)\<close> for a buffer that held \<open>buf\<close>.
\<close>

record ifstream =
  file_bytes :: string
  file_pos :: nat
  file_failed :: bool

definition fin_read :: "ifstream \<Rightarrow> nat \<Rightarrow> string \<Rightarrow> string \<times> ifstream" where
  "fin_read fin n buf =
     (if file_failed fin then (buf, fin)
      else
        (let got = take n (drop (file_pos fin) (file_bytes fin))
         in (got @ drop (length got) buf,
             fin\<lparr>file_pos := file_pos fin + length got, file_failed := (length got < n)\<rparr>)))"

text \<open>Four bytes as an unsigned and as a signed 32-bit integer, least significant byte
  first (the byte order of the machines the program is built for), and back.\<close>

definition u32_of :: "string \<Rightarrow> nat" where
  "u32_of bs = foldr (\<lambda>c acc. of_char c + 256 * acc) (take 4 bs) 0"

definition i32_of :: "string \<Rightarrow> int" where
  "i32_of bs = (let u = int (u32_of bs) in if u < 2 ^ 31 then u else u - 2 ^ 32)"

definition bytes_of_i32 :: "int \<Rightarrow> string" where
  "bytes_of_i32 x =
     (let u = nat (x mod 2 ^ 32) in map (\<lambda>k. char_of ((u div 256 ^ k) mod 256)) [0, 1, 2, 3])"

text \<open>A read into a variable that has no value yet: \<open>None\<close> when the stream did not
  deliver all four bytes, and the variable's value is indeterminate.\<close>

definition read_i32 :: "ifstream \<Rightarrow> int option \<times> ifstream" where
  "read_i32 fin =
     (let r = fin_read fin 4 [] in (if file_failed (snd r) then None else Some (i32_of (fst r)), snd r))"

definition read_u32 :: "ifstream \<Rightarrow> nat option \<times> ifstream" where
  "read_u32 fin =
     (let r = fin_read fin 4 [] in (if file_failed (snd r) then None else Some (u32_of (fst r)), snd r))"

text \<open>A read into an \<open>int32_t\<close> variable that holds \<open>old\<close>.\<close>

definition read_i32_into :: "ifstream \<Rightarrow> int \<Rightarrow> int \<times> ifstream" where
  "read_i32_into fin old = (let r = fin_read fin 4 (bytes_of_i32 old) in (i32_of (fst r), snd r))"

subsection \<open>What the loader uses of ggml\<close>

text \<open>
  \<open>ggml.h\<close> is not among the sources, so its tables and functions are fields of a
  record: the enumerator of \<open>enum ggml_type\<close> with a given value (\<open>None\<close> when there
  is none: the tables are then read out of range), \<open>ggml_type_size\<close>,
  \<open>ggml_blck_size\<close>, \<open>ggml_type_sizef\<close>, \<open>ggml_nelements\<close>, \<open>ggml_nbytes\<close>, and
  whether \<open>ggml_init\<close> gets the memory it is asked for.
\<close>

record ggml =
  ggml_type_of :: "int \<Rightarrow> ggml_type option"
  ggml_type_size :: "ggml_type \<Rightarrow> nat"
  ggml_blck_size :: "ggml_type \<Rightarrow> nat"
  ggml_type_sizef :: "ggml_type \<Rightarrow> real"
  ggml_nelements :: "ggml_tensor \<Rightarrow> int"
  ggml_nbytes :: "ggml_tensor \<Rightarrow> nat"
  ggml_init_ok :: "nat \<Rightarrow> bool"

text \<open>\<open>ggml_ftype_to_ggml_type\<close>; the argument is the \<open>int32_t\<close> read from the file, cast
  to \<open>enum ggml_ftype\<close>. A value without a \<open>case\<close> leaves \<open>GGML_TYPE_COUNT\<close>.\<close>

definition ggml_ftype_to_ggml_type :: "int \<Rightarrow> ggml_type" where
  "ggml_ftype_to_ggml_type ft =
     (if ft = 0 then GGML_TYPE_F32
      else if ft = 1 then GGML_TYPE_F16
      else if ft = 2 then GGML_TYPE_Q4_0
      else if ft = 3 then GGML_TYPE_Q4_1
      else if ft = 5 then GGML_TYPE_Q4_2
      else if ft = 8 then GGML_TYPE_Q5_0
      else if ft = 9 then GGML_TYPE_Q5_1
      else if ft = 7 then GGML_TYPE_Q8_0
      else GGML_TYPE_COUNT)"

text \<open>\<open>ggml_new_tensor_1d\<close> and \<open>ggml_new_tensor_2d\<close>. The data of a new tensor is
  whatever the memory held; the model takes zero bytes.\<close>

definition ggml_new_tensor_2d :: "ggml \<Rightarrow> ggml_type \<Rightarrow> int \<Rightarrow> int \<Rightarrow> ggml_tensor" where
  "ggml_new_tensor_2d g ty a b =
     (let t = \<lparr>tensor_type = ty, ne0 = a, ne1 = b, ne2 = 1, ne3 = 1, tensor_data = []\<rparr>
      in t\<lparr>tensor_data := replicate (ggml_nbytes g t) (CHR 0x00)\<rparr>)"

definition ggml_new_tensor_1d :: "ggml \<Rightarrow> ggml_type \<Rightarrow> int \<Rightarrow> ggml_tensor" where
  "ggml_new_tensor_1d g ty a = ggml_new_tensor_2d g ty a 1"

subsection \<open>Hyperparameters and vocabulary\<close>

text \<open>The default member initializers of \<open>gptj_hparams\<close> (GPT-J 6B).\<close>

definition default_hparams :: gptj_hparams where
  "default_hparams = \<lparr>n_vocab = 50400, n_ctx = 2048, n_embd = 4096, n_head = 16, n_layer = 28,
                       n_rot = 64, ftype = 1\<rparr>"

definition read_hparams :: "ifstream \<Rightarrow> gptj_hparams \<Rightarrow> gptj_hparams \<times> ifstream" where
  "read_hparams fin hp =
     (let r1 = read_i32_into fin (n_vocab hp);
          r2 = read_i32_into (snd r1) (n_ctx hp);
          r3 = read_i32_into (snd r2) (n_embd hp);
          r4 = read_i32_into (snd r3) (n_head hp);
          r5 = read_i32_into (snd r4) (n_layer hp);
          r6 = read_i32_into (snd r5) (n_rot hp);
          r7 = read_i32_into (snd r6) (ftype hp)
      in (\<lparr>n_vocab = fst r1, n_ctx = fst r2, n_embd = fst r3, n_head = fst r4, n_layer = fst r5,
           n_rot = fst r6, ftype = fst r7\<rparr>, snd r7))"

text \<open>\<open>word.resize(len)\<close> of \<open>std::string\<close>.\<close>

definition resize :: "string \<Rightarrow> nat \<Rightarrow> string" where
  "resize w len = take len w @ replicate (len - length w) (CHR 0x00)"

text \<open>
  The vocabulary loop, \<open>k\<close> entries to go, the next one with id \<open>i\<close>. \<open>len\<close> is declared
  without a value in the loop body, and \<open>word\<close> lives across the passes.
\<close>

fun read_vocab :: "nat \<Rightarrow> int \<Rightarrow> ifstream \<Rightarrow> string \<Rightarrow> gpt_vocab \<Rightarrow> fault + (gpt_vocab \<times> ifstream)" where
  "read_vocab 0 i fin word v = Inr (v, fin)"
| "read_vocab (Suc k) i fin word v =
     (case read_u32 fin of
        (None, fin1) \<Rightarrow> Inl Undefined_Behaviour
      | (Some len, fin1) \<Rightarrow>
          (let r = fin_read fin1 len (resize word len);
               word' = fst r;
               v' = v\<lparr>token_to_id := (token_to_id v)(word' \<mapsto> i),
                      id_to_token := (id_to_token v)(i \<mapsto> word')\<rparr>
           in read_vocab k (i + 1) (snd r) word' v'))"

subsection \<open>Size of the context and the tensors of the architecture\<close>

text \<open>
  \<^verbatim>\<open>ctx_size += x\<close> for a \<open>size_t\<close> sum and a floating-point \<open>x\<close>: the sum is converted
  back to \<open>size_t\<close> each time. The model adds in real numbers; the rounding of \<open>float\<close>
  and the overflow of the \<open>int\<close> products are outside it.
\<close>

definition add_size :: "nat \<Rightarrow> real \<Rightarrow> nat" where
  "add_size c x = nat \<lfloor>real c + x\<rfloor>"

definition ctx_size_of :: "ggml \<Rightarrow> gptj_hparams \<Rightarrow> ggml_type \<Rightarrow> nat" where
  "ctx_size_of g hp wtype =
     (let e = real_of_int (n_embd hp); l = real_of_int (n_layer hp);
          c = real_of_int (n_ctx hp); v = real_of_int (n_vocab hp);
          f32 = ggml_type_sizef g GGML_TYPE_F32; f16 = ggml_type_sizef g GGML_TYPE_F16;
          w = ggml_type_sizef g wtype
      in foldl add_size 0
          [e * f32, e * f32,
           e * v * w,
           e * v * w, v * f32,
           l * (e * f32), l * (e * f32),
           l * (e * e * w), l * (e * e * w), l * (e * e * w),
           l * (e * e * w),
           l * (4 * e * e * w), l * (4 * e * f32),
           l * (4 * e * e * w), l * (e * f32),
           c * l * e * f16, c * l * e * f16,
           (5 + 10 * l) * 256])"

text \<open>\<open>std::to_string\<close> of a layer index.\<close>

fun to_string :: "nat \<Rightarrow> string" where
  "to_string n =
     (if n < 10 then [char_of (48 + n)] else to_string (n div 10) @ [char_of (48 + n mod 10)])"

declare to_string.simps [simp del]

definition layer_tensors :: "ggml \<Rightarrow> gptj_hparams \<Rightarrow> ggml_type \<Rightarrow> nat \<Rightarrow> (string \<times> ggml_tensor) list" where
  "layer_tensors g hp wtype i =
     (let e = n_embd hp; pre = ''transformer.h.'' @ to_string i in
      [(pre @ ''.ln_1.weight'', ggml_new_tensor_1d g GGML_TYPE_F32 e),
       (pre @ ''.ln_1.bias'', ggml_new_tensor_1d g GGML_TYPE_F32 e),
       (pre @ ''.attn.q_proj.weight'', ggml_new_tensor_2d g wtype e e),
       (pre @ ''.attn.k_proj.weight'', ggml_new_tensor_2d g wtype e e),
       (pre @ ''.attn.v_proj.weight'', ggml_new_tensor_2d g wtype e e),
       (pre @ ''.attn.out_proj.weight'', ggml_new_tensor_2d g wtype e e),
       (pre @ ''.mlp.fc_in.weight'', ggml_new_tensor_2d g wtype e (4 * e)),
       (pre @ ''.mlp.fc_in.bias'', ggml_new_tensor_1d g GGML_TYPE_F32 (4 * e)),
       (pre @ ''.mlp.fc_out.weight'', ggml_new_tensor_2d g wtype (4 * e) e),
       (pre @ ''.mlp.fc_out.bias'', ggml_new_tensor_1d g GGML_TYPE_F32 e)])"

definition put_all :: "(string \<rightharpoonup> ggml_tensor) \<Rightarrow> (string \<times> ggml_tensor) list \<Rightarrow> (string \<rightharpoonup> ggml_tensor)" where
  "put_all m kvs = foldl (\<lambda>m kv. m(fst kv \<mapsto> snd kv)) m kvs"

text \<open>"prepare memory for the weights" and "key + value memory": every tensor of the
  architecture is made and entered in \<open>model.tensors\<close> under its name.\<close>

definition prepare_tensors :: "ggml \<Rightarrow> ggml_type \<Rightarrow> gptj_model \<Rightarrow> gptj_model" where
  "prepare_tensors g wtype m =
     (let hp = hparams m; e = n_embd hp; v = n_vocab hp;
          top = [(''transformer.wte.weight'', ggml_new_tensor_2d g wtype e v),
                 (''transformer.ln_f.weight'', ggml_new_tensor_1d g GGML_TYPE_F32 e),
                 (''transformer.ln_f.bias'', ggml_new_tensor_1d g GGML_TYPE_F32 e),
                 (''lm_head.weight'', ggml_new_tensor_2d g wtype e v),
                 (''lm_head.bias'', ggml_new_tensor_1d g GGML_TYPE_F32 v)];
          layers = concat (map (layer_tensors g hp wtype) [0..<nat (n_layer hp)]);
          n_elements = e * (n_layer hp * n_ctx hp)
      in m\<lparr>tensors := put_all (put_all (tensors m) top) layers,
            memory_k := Some (ggml_new_tensor_1d g GGML_TYPE_F16 n_elements),
            memory_v := Some (ggml_new_tensor_1d g GGML_TYPE_F16 n_elements)\<rparr>)"

subsection \<open>The tensor records\<close>

text \<open>
  \<^verbatim>\<open>int32_t ne[2] = {1, 1}; for (int i = 0; i < n_dims; ++i) { fin.read(&ne[i], 4); nelements *= ne[i]; }\<close>
  for \<open>n_dims \<le> 2\<close>; a larger \<open>n_dims\<close> writes past the array.
\<close>

definition read_dims :: "ifstream \<Rightarrow> int \<Rightarrow> (int \<times> int) \<times> ifstream" where
  "read_dims fin n_dims =
     (if n_dims \<le> 0 then ((1, 1), fin)
      else
        (let r0 = read_i32_into fin 1 in
         if n_dims = 1 then ((fst r0, 1), snd r0)
         else (let r1 = read_i32_into (snd r0) 1 in ((fst r0, fst r1), snd r1))))"

definition in_int32 :: "int \<Rightarrow> bool" where
  "in_int32 x = (- (2 ^ 31) \<le> x \<and> x < 2 ^ 31)"

datatype outcome = Returned bool | Crashed fault

text \<open>
  One pass through \<^verbatim>\<open>while (true)\<close> of "load weights": \<open>Inl\<close> when the loop is left
  (by \<^verbatim>\<open>break\<close>, after which the function returns \<open>true\<close>, or by \<^verbatim>\<open>return false\<close>),
  \<open>Inr\<close> with the stream and the model after the record otherwise.
  \<open>n_dims\<close>, \<open>length\<close> and \<open>ttype\<close> have no value before they are read, and they are
  used only if \<open>fin.eof()\<close> is false after the three reads.
\<close>

definition load_record ::
  "ggml \<Rightarrow> ifstream \<Rightarrow> gptj_model \<Rightarrow> (outcome \<times> ifstream \<times> gptj_model) + (ifstream \<times> gptj_model)" where
  "load_record g fin m =
     (let h1 = read_i32 fin; h2 = read_i32 (snd h1); h3 = read_i32 (snd h2); fin3 = snd h3 in
      if file_failed fin3 then Inl (Returned True, fin3, m)
      else
       (case (fst h1, fst h2, fst h3) of
          (Some n_dims, Some len, Some ttype) \<Rightarrow>
            if 2 < n_dims then Inl (Crashed Undefined_Behaviour, fin3, m)
            else
             (let d = read_dims fin3 n_dims; ne = fst d; fin4 = snd d;
                  nelements = fst ne * snd ne
              in if \<not> in_int32 nelements then Inl (Crashed Undefined_Behaviour, fin4, m)
                 else if len < 0 then Inl (Crashed Uncaught_Exception, fin4, m)
                 else
                  (let r = fin_read fin4 (nat len) (replicate (nat len) (CHR 0x00));
                       name = c_str (fst r); fin5 = snd r
                   in case tensors m name of
                        None \<Rightarrow> Inl (Returned False, fin5, m)
                      | Some tensor \<Rightarrow>
                          if ggml_nelements g tensor \<noteq> nelements then Inl (Returned False, fin5, m)
                          else if ne0 tensor \<noteq> fst ne \<or> ne1 tensor \<noteq> snd ne then Inl (Returned False, fin5, m)
                          else
                           (case ggml_type_of g ttype of
                              None \<Rightarrow> Inl (Crashed Undefined_Behaviour, fin5, m)
                            | Some ty \<Rightarrow>
                               (let bpe = ggml_type_size g ty;
                                    blck = ggml_blck_size g (tensor_type tensor)
                                in if blck = 0 then Inl (Crashed Undefined_Behaviour, fin5, m)
                                   else if (size_t nelements * bpe) mod 2 ^ 64 div blck \<noteq> ggml_nbytes g tensor
                                   then Inl (Returned False, fin5, m)
                                   else
                                    (let p = fin_read fin5 (ggml_nbytes g tensor) (tensor_data tensor)
                                     in Inr (snd p,
                                             m\<lparr>tensors := (tensors m)(name \<mapsto> tensor\<lparr>tensor_data := fst p\<rparr>)\<rparr>))))))
        | _ \<Rightarrow> Inl (Crashed Undefined_Behaviour, fin3, m)))"

lemma fin_read_bytes: "file_bytes (snd (fin_read fin n buf)) = file_bytes fin"
  by (simp add: fin_read_def Let_def)

lemma fin_read_pos: "file_pos fin \<le> file_pos (snd (fin_read fin n buf))"
  by (simp add: fin_read_def Let_def)

lemma fin_read_ok:
  assumes "\<not> file_failed (snd (fin_read fin n buf))" and "0 < n"
  shows "file_pos (snd (fin_read fin n buf)) = file_pos fin + n \<and> file_pos fin + n \<le> length (file_bytes fin)"
proof -
  from assms have nf: "\<not> file_failed fin"
    by (auto simp: fin_read_def Let_def split: if_splits)
  with assms have "n \<le> length (take n (drop (file_pos fin) (file_bytes fin)))"
    by (simp add: fin_read_def Let_def)
  then have le: "n \<le> length (file_bytes fin) - file_pos fin" by simp
  with nf have "file_pos (snd (fin_read fin n buf)) = file_pos fin + n"
    by (simp add: fin_read_def Let_def min_def)
  with le assms(2) show ?thesis by arith
qed

lemma fin_read_failed: "file_failed fin \<Longrightarrow> file_failed (snd (fin_read fin n buf))"
  by (simp add: fin_read_def)

lemma read_i32_into_bytes: "file_bytes (snd (read_i32_into fin old)) = file_bytes fin"
  by (simp add: read_i32_into_def Let_def fin_read_bytes)

lemma read_i32_into_pos: "file_pos fin \<le> file_pos (snd (read_i32_into fin old))"
  by (simp add: read_i32_into_def Let_def fin_read_pos)

lemma read_dims_bytes: "file_bytes (snd (read_dims fin n)) = file_bytes fin"
  by (simp add: read_dims_def Let_def read_i32_into_bytes)

lemma read_dims_pos: "file_pos fin \<le> file_pos (snd (read_dims fin n))"
  using read_i32_into_pos [of fin 1] read_i32_into_pos [of "snd (read_i32_into fin 1)" 1]
  by (auto simp: read_dims_def Let_def)

lemma read_i32_snd: "snd (read_i32 fin) = snd (fin_read fin 4 [])"
  by (simp add: read_i32_def Let_def)

lemma header_read:
  assumes "\<not> file_failed (snd (read_i32 (snd (read_i32 (snd (read_i32 fin))))))"
  shows "file_bytes (snd (read_i32 (snd (read_i32 (snd (read_i32 fin)))))) = file_bytes fin \<and>
         file_pos (snd (read_i32 (snd (read_i32 (snd (read_i32 fin)))))) = file_pos fin + 12 \<and>
         file_pos fin + 12 \<le> length (file_bytes fin)"
proof -
  let ?f1 = "snd (fin_read fin 4 [])"
  let ?f2 = "snd (fin_read ?f1 4 [])"
  let ?f3 = "snd (fin_read ?f2 4 [])"
  from assms have 3: "\<not> file_failed ?f3" by (simp add: read_i32_snd)
  then have 2: "\<not> file_failed ?f2" using fin_read_failed by blast
  then have 1: "\<not> file_failed ?f1" using fin_read_failed by blast
  from fin_read_ok [OF 1] fin_read_ok [OF 2] fin_read_ok [OF 3]
  show ?thesis by (simp add: read_i32_snd fin_read_bytes)
qed

lemma load_record_advances:
  assumes "load_record g fin m = Inr (fin', m')"
  shows "file_bytes fin' = file_bytes fin \<and> file_pos fin < file_pos fin' \<and>
         file_pos fin < length (file_bytes fin)"
proof -
  let ?f3 = "snd (read_i32 (snd (read_i32 (snd (read_i32 fin)))))"
  from assms have nf: "\<not> file_failed ?f3"
    by (auto simp: load_record_def Let_def split: if_splits)
  from header_read [OF nf] have h: "file_bytes ?f3 = file_bytes fin" "file_pos ?f3 = file_pos fin + 12"
    "file_pos fin + 12 \<le> length (file_bytes fin)" by auto
  from assms nf obtain n_dims len and buf1 buf2 :: string and k where
    fin': "fin' = snd (fin_read (snd (fin_read (snd (read_dims ?f3 n_dims)) len buf1)) k buf2)"
    by (auto simp: load_record_def Let_def split: if_splits option.splits prod.splits)
  have "file_bytes fin' = file_bytes ?f3"
    unfolding fin' by (simp add: fin_read_bytes read_dims_bytes)
  moreover have "file_pos ?f3 \<le> file_pos fin'"
    unfolding fin'
    by (meson fin_read_pos read_dims_pos order_trans)
  ultimately show ?thesis using h by simp
qed

text \<open>The loop "load weights", \<open>fin.close()\<close> and \<open>return true\<close>.\<close>

function load_weights :: "ggml \<Rightarrow> ifstream \<Rightarrow> gptj_model \<Rightarrow> outcome \<times> ifstream \<times> gptj_model" where
  "load_weights g fin m =
     (case load_record g fin m of
        Inl r \<Rightarrow> r
      | Inr (fin', m') \<Rightarrow> load_weights g fin' m')"
  by pat_completeness auto
termination
proof (relation "measure (\<lambda>(g, fin, m). length (file_bytes fin) - file_pos fin)")
  show "wf (measure (\<lambda>(g, fin, m). length (file_bytes fin) - file_pos fin))" by simp
next
  fix g fin m x fin' m'
  assume "load_record g fin m = Inr x" and "(fin', m') = x"
  then have "load_record g fin m = Inr (fin', m')" by simp
  from load_record_advances [OF this]
  have "length (file_bytes fin') - file_pos fin' < length (file_bytes fin) - file_pos fin"
    by auto
  then show "((g, fin', m'), (g, fin, m)) \<in> measure (\<lambda>(g, fin, m). length (file_bytes fin) - file_pos fin)"
    by simp
qed

declare load_weights.simps [simp del]

subsection \<open>\<open>gptj_model_load\<close> and \<open>gptj_load_model\<close>\<close>

text \<open>
  The file system is a map from names to contents; \<open>m\<close> and \<open>v\<close> are the model and the
  vocabulary the caller passes by reference, and the result holds what they are when
  the function returns. \<open>magic\<close> has no value before it is read.
\<close>

definition gptj_model_load ::
  "ggml \<Rightarrow> (string \<rightharpoonup> string) \<Rightarrow> string \<Rightarrow> gptj_model \<Rightarrow> gpt_vocab \<Rightarrow> outcome \<times> gptj_model \<times> gpt_vocab" where
  "gptj_model_load g fs fname m v =
     (case fs fname of
        None \<Rightarrow> (Returned False, m, v)
      | Some bytes \<Rightarrow>
         (case read_u32 \<lparr>file_bytes = bytes, file_pos = 0, file_failed = False\<rparr> of
            (None, fin1) \<Rightarrow> (Crashed Undefined_Behaviour, m, v)
          | (Some magic, fin1) \<Rightarrow>
             if magic \<noteq> 0x67676d6c then (Returned False, m, v)
             else
              (let h = read_hparams fin1 (hparams m);
                   m1 = m\<lparr>hparams := fst h\<rparr>;
                   c = read_i32_into (snd h) 0
               in if fst c \<noteq> n_vocab (hparams m1) then (Returned False, m1, v)
                  else
                   (case read_vocab (nat (fst c)) 0 (snd c) [] v of
                      Inl f \<Rightarrow> (Crashed f, m1, v)
                    | Inr (v1, fin2) \<Rightarrow>
                       (let wtype = ggml_ftype_to_ggml_type (ftype (hparams m1)) in
                        if wtype = GGML_TYPE_COUNT then (Returned False, m1, v1)
                        else
                         (let ctx_size = ctx_size_of g (hparams m1) wtype in
                          if \<not> ggml_init_ok g ctx_size then (Returned False, m1\<lparr>ctx := None\<rparr>, v1)
                          else if n_layer (hparams m1) < 0
                          then (Crashed Uncaught_Exception, m1\<lparr>ctx := Some ctx_size\<rparr>, v1)
                          else
                           (case load_weights g fin2 (prepare_tensors g wtype (m1\<lparr>ctx := Some ctx_size\<rparr>)) of
                              (out, fin3, m3) \<Rightarrow> (out, m3, v1))))))))"

text \<open>\<open>gptj_load_model\<close>: a new context (default hyperparameters, empty maps, no ggml
  context), deleted again when loading fails.\<close>

definition new_model_context :: gptj_model_context where
  "new_model_context =
     \<lparr>vocab = \<lparr>token_to_id = Map.empty, id_to_token = Map.empty\<rparr>,
      model = \<lparr>hparams = default_hparams, tensors = Map.empty, memory_k = None, memory_v = None,
               ctx = None\<rparr>\<rparr>"

definition gptj_load_model :: "ggml \<Rightarrow> (string \<rightharpoonup> string) \<Rightarrow> string \<Rightarrow> fault + gptj_model_context option" where
  "gptj_load_model g fs filename =
     (case gptj_model_load g fs (c_str filename) (model new_model_context) (vocab new_model_context) of
        (Returned True, m, v) \<Rightarrow> Inr (Some \<lparr>vocab = v, model = m\<rparr>)
      | (Returned False, m, v) \<Rightarrow> Inr None
      | (Crashed f, m, v) \<Rightarrow> Inl f)"

section \<open>Evaluator bookkeeping (\<open>gptj_eval\<close>)\<close>

text \<open>
  What the generation loop can observe of a run: the evaluator calls with their cache
  position and batch, the sampled ids with the cache position at that moment, and the
  strings given to the callback.
\<close>

datatype event = Eval nat "int list" | Sample nat int | Callback string

definition eval_calls :: "event list \<Rightarrow> (nat \<times> int list) list" where
  "eval_calls tr = concat (map (\<lambda>e. case e of Eval p b \<Rightarrow> [(p, b)] | _ \<Rightarrow> []) tr)"

text \<open>
  \<open>gptj_eval\<close>, leaving the arithmetic to ggml (\<open>graph_compute\<close>). \<open>embd_w\<close>,
  \<open>mem_per_token\<close> are the reference parameters and \<open>buf_size\<close> the function's static
  variable; the result is the return value and their new values. The thread count has no
  effect on the result and is left out. With an empty batch the source divides by
  \<open>N = 0\<close> and reads before the logits.
\<close>

definition gptj_eval ::
  "'r extern \<Rightarrow> (gptj_model \<Rightarrow> (nat \<times> int list) list \<Rightarrow> nat \<Rightarrow> int list \<Rightarrow> real list) \<Rightarrow> gptj_model \<Rightarrow>
   (nat \<times> int list) list \<Rightarrow> nat \<Rightarrow> int list \<Rightarrow> real list \<Rightarrow> nat \<Rightarrow> nat \<Rightarrow>
   fault + (bool \<times> real list \<times> nat \<times> nat)" where
  "gptj_eval ext graph_compute m hist n_past embd_inp embd_w mem_per_token buf_size =
     (let N = length embd_inp;
          enlarge = (0 < mem_per_token \<and> buf_size < mem_per_token * N);
          buf_size' = (if enlarge then grow ext (mem_per_token * N) else buf_size)
      in if N = 0 then Inl Undefined_Behaviour
         else if enlarge \<and> \<not> realloc_ok ext buf_size' then Inr (False, embd_w, mem_per_token, buf_size')
         else Inr (True,
                   graph_compute m hist n_past embd_inp,
                   (if mem_per_token = 0 then ggml_used_mem ext N div N else mem_per_token),
                   buf_size'))"

section \<open>Generation driver (\<open>gptj_generate\<close>)\<close>

text \<open>The local variables of \<open>gptj_generate\<close> that the loop changes, and the trace.\<close>

record 'r gen_state =
  g_i :: nat
  g_n_past :: nat
  g_embd :: "int list"
  g_logits :: "real list"
  g_mem_per_token :: nat
  g_buf_size :: nat
  g_rng :: 'r
  g_processing_input :: bool
  g_vocab :: gpt_vocab
  g_trace :: "event list"

text \<open>
  The callback is a function pointer and may keep state of its own; the model gives it
  the strings of its earlier calls and the string of this call.
\<close>

type_synonym callback = "string list \<Rightarrow> string \<Rightarrow> bool"

definition callback_args :: "event list \<Rightarrow> string list" where
  "callback_args tr = concat (map (\<lambda>e. case e of Callback s \<Rightarrow> [s] | _ \<Rightarrow> []) tr)"

text \<open>
  The prompt branch:
  \<^verbatim>\<open>for (int k = i; k < embd_inp.size(); k++) { embd.push_back(embd_inp[k]); if (embd.size() > params.n_batch) break; }\<close>
  The comparison is made in \<open>size_t\<close>.
\<close>

function fill_embd :: "int list \<Rightarrow> int \<Rightarrow> nat \<Rightarrow> int list \<Rightarrow> int list" where
  "fill_embd embd_inp batch k embd =
     (if k < length embd_inp then
        (if size_t batch < length (embd @ [embd_inp ! k]) then embd @ [embd_inp ! k]
         else fill_embd embd_inp batch (k + 1) (embd @ [embd_inp ! k]))
      else embd)"
  by pat_completeness auto
termination
  by (relation "measure (\<lambda>(embd_inp, batch, k, embd). length embd_inp - k)") auto

declare fill_embd.simps [simp del]

text \<open>
  \<^verbatim>\<open>for (auto id : embd) { if (id == 50256 || !(*callback)(vocab.id_to_token[id].c_str())) return true; }\<close>
  The result tells whether the function returned. \<open>operator[]\<close> of \<open>std::map\<close> enters
  an empty string for an id the map does not have.
\<close>

fun emit_tokens :: "callback \<Rightarrow> int list \<Rightarrow> gpt_vocab \<Rightarrow> event list \<Rightarrow> bool \<times> gpt_vocab \<times> event list" where
  "emit_tokens cb [] v tr = (False, v, tr)"
| "emit_tokens cb (tid # ids) v tr =
     (if tid = 50256 then (True, v, tr)
      else
        (let token = (case id_to_token v tid of Some s \<Rightarrow> s | None \<Rightarrow> []);
             v' = v\<lparr>id_to_token := (id_to_token v)(tid \<mapsto> token)\<rparr>;
             continue = cb (callback_args tr) (c_str token);
             tr' = tr @ [Callback (c_str token)]
         in if \<not> continue then (True, v', tr') else emit_tokens cb ids v' tr'))"

text \<open>
  The body of the \<open>for\<close> loop of \<open>gptj_generate\<close> in three parts. Each gives \<open>Inl\<close>
  when the function returns there (or the run leaves defined C++), and the state to go
  on with otherwise.

  First part, "predict": the evaluator call for a non-empty \<open>embd\<close>, then
  \<^verbatim>\<open>n_past += embd.size(); embd.clear();\<close>
\<close>

definition predict ::
  "'r extern \<Rightarrow> (gptj_model \<Rightarrow> (nat \<times> int list) list \<Rightarrow> nat \<Rightarrow> int list \<Rightarrow> real list) \<Rightarrow> gptj_model \<Rightarrow>
   'r gen_state \<Rightarrow> (outcome \<times> 'r gen_state) + 'r gen_state" where
  "predict ext graph_compute m st =
     (if g_embd st \<noteq> [] then
        (case gptj_eval ext graph_compute m (eval_calls (g_trace st)) (g_n_past st) (g_embd st)
                (g_logits st) (g_mem_per_token st) (g_buf_size st) of
           Inl f \<Rightarrow> Inl (Crashed f, st)
         | Inr (ok, lg, mpt, bs) \<Rightarrow>
            (let st1 = st\<lparr>g_logits := lg, g_mem_per_token := mpt, g_buf_size := bs,
                          g_trace := g_trace st @ [Eval (g_n_past st) (g_embd st)]\<rparr>
             in if \<not> ok then Inl (Returned False, st1)
                else Inr (st1\<lparr>g_n_past := g_n_past st1 + length (g_embd st1), g_embd := []\<rparr>)))
      else Inr (st\<lparr>g_n_past := g_n_past st + length (g_embd st), g_embd := []\<rparr>))"

text \<open>
  Second part: \<^verbatim>\<open>if (i >= embd_inp.size())\<close> sample the next token from
  \<^verbatim>\<open>logits.data() + (logits.size() - n_vocab)\<close>, else take the next prompt tokens and
  \<^verbatim>\<open>i += embd.size() - 1\<close>.
\<close>

definition next_tokens ::
  "'r extern \<Rightarrow> gptj_model \<Rightarrow> gptj_params \<Rightarrow> int list \<Rightarrow> 'r gen_state \<Rightarrow> fault + 'r gen_state" where
  "next_tokens ext m params embd_inp st =
     (if length embd_inp \<le> g_i st then
        (if n_vocab (hparams m) < 0 \<or> int (length (g_logits st)) < n_vocab (hparams m)
         then Inl Undefined_Behaviour
         else
          (case gpt_sample_top_k_top_p ext (g_vocab st)
                  (drop (length (g_logits st) - nat (n_vocab (hparams m))) (g_logits st))
                  (top_k params) (top_p params) (temp params) (g_rng st) of
             Inl f \<Rightarrow> Inl f
           | Inr (tid, rng') \<Rightarrow>
               Inr (st\<lparr>g_processing_input := False, g_rng := rng', g_embd := [tid],
                       g_trace := g_trace st @ [Sample (g_n_past st) tid]\<rparr>)))
      else
        (let embd = fill_embd embd_inp (n_batch params) (g_i st) (g_embd st) in
         if INT_MAX < g_i st + (length embd - 1) then Inl Undefined_Behaviour
         else Inr (st\<lparr>g_embd := embd, g_i := g_i st + (length embd - 1)\<rparr>)))"

text \<open>
  Third part: the callback for the tokens of \<open>embd\<close> once the prompt is done, the test
  \<^verbatim>\<open>if (embd.back() == 50256) break;\<close> and the \<open>i++\<close> of the loop.
\<close>

definition finish :: "callback \<Rightarrow> 'r gen_state \<Rightarrow> (outcome \<times> 'r gen_state) + 'r gen_state" where
  "finish cb st =
     (case (if \<not> g_processing_input st
            then emit_tokens cb (g_embd st) (g_vocab st) (g_trace st)
            else (False, g_vocab st, g_trace st)) of
        (returned, v', tr') \<Rightarrow>
          (let st' = st\<lparr>g_vocab := v', g_trace := tr'\<rparr>
           in if returned then Inl (Returned True, st')
              else if g_embd st' = [] then Inl (Crashed Undefined_Behaviour, st')
              else if last (g_embd st') = 50256 then Inl (Returned True, st')
              else if INT_MAX \<le> g_i st' then Inl (Crashed Undefined_Behaviour, st')
              else Inr (st'\<lparr>g_i := g_i st' + 1\<rparr>)))"

definition gen_step ::
  "'r extern \<Rightarrow> (gptj_model \<Rightarrow> (nat \<times> int list) list \<Rightarrow> nat \<Rightarrow> int list \<Rightarrow> real list) \<Rightarrow> gptj_model \<Rightarrow>
   gptj_params \<Rightarrow> int list \<Rightarrow> callback \<Rightarrow> 'r gen_state \<Rightarrow> (outcome \<times> 'r gen_state) + 'r gen_state" where
  "gen_step ext graph_compute m params embd_inp cb st =
     (case predict ext graph_compute m st of
        Inl r \<Rightarrow> Inl r
      | Inr st1 \<Rightarrow>
         (case next_tokens ext m params embd_inp st1 of
            Inl f \<Rightarrow> Inl (Crashed f, st1)
          | Inr st2 \<Rightarrow> finish cb st2))"

lemma predict_i: "predict ext gc m st = Inr st1 \<Longrightarrow> g_i st1 = g_i st"
  by (auto simp: predict_def Let_def split: if_splits sum.splits prod.splits)

lemma next_tokens_i:
  assumes "next_tokens ext m params embd_inp st = Inr st2"
  shows "g_i st \<le> g_i st2 \<and> g_i st2 \<le> max (g_i st) INT_MAX"
proof (cases "length embd_inp \<le> g_i st")
  case True
  with assms have "g_i st2 = g_i st"
    unfolding next_tokens_def by (auto split: if_splits sum.splits prod.splits)
  then show ?thesis by simp
next
  case False
  with assms have "g_i st2 = g_i st + (length (fill_embd embd_inp (n_batch params) (g_i st) (g_embd st)) - 1) \<and> g_i st2 \<le> INT_MAX"
    unfolding next_tokens_def Let_def by (auto split: if_splits)
  then show ?thesis by simp
qed

lemma finish_i: "finish cb st = Inr st3 \<Longrightarrow> g_i st3 = g_i st + 1 \<and> g_i st < INT_MAX"
  by (auto simp: finish_def Let_def split: if_splits prod.splits)

lemma gen_step_i:
  assumes "gen_step ext gc m params embd_inp cb st = Inr st'"
  shows "g_i st < g_i st' \<and> g_i st' \<le> INT_MAX"
proof -
  from assms obtain st1 st2 where
    1: "predict ext gc m st = Inr st1" and
    2: "next_tokens ext m params embd_inp st1 = Inr st2" and
    3: "finish cb st2 = Inr st'"
    by (auto simp: gen_step_def split: sum.splits)
  from predict_i [OF 1] next_tokens_i [OF 2] finish_i [OF 3] show ?thesis by auto
qed

text \<open>
  The loop \<^verbatim>\<open>for (int i = embd.size(); i < embd_inp.size() + params.n_predict; i++)\<close>.
  Its bound is a \<open>size_t\<close> value, \<open>bound\<close> here, and \<open>i\<close> is converted to \<open>size_t\<close> for
  the comparison. \<open>i\<close> is never negative, so the conversion leaves it as it is. After the
  loop the function returns \<open>true\<close>.
\<close>

function gen_loop ::
  "'r extern \<Rightarrow> (gptj_model \<Rightarrow> (nat \<times> int list) list \<Rightarrow> nat \<Rightarrow> int list \<Rightarrow> real list) \<Rightarrow> gptj_model \<Rightarrow>
   gptj_params \<Rightarrow> int list \<Rightarrow> callback \<Rightarrow> nat \<Rightarrow> 'r gen_state \<Rightarrow> outcome \<times> 'r gen_state" where
  "gen_loop ext graph_compute m params embd_inp cb bound st =
     (if g_i st < bound then
        (case gen_step ext graph_compute m params embd_inp cb st of
           Inl r \<Rightarrow> r
         | Inr st' \<Rightarrow> gen_loop ext graph_compute m params embd_inp cb bound st')
      else (Returned True, st))"
  by pat_completeness auto
termination
proof (relation "measure (\<lambda>(ext, gc, m, params, embd_inp, cb, bound, st). Suc INT_MAX - g_i st)")
  show "wf (measure (\<lambda>(ext, gc, m, params, embd_inp, cb, bound, st). Suc INT_MAX - g_i st))" by simp
next
  fix ext :: "'r extern" and gc m params embd_inp cb and bound :: nat and st st' :: "'r gen_state"
  assume "gen_step ext gc m params embd_inp cb st = Inr st'"
  from gen_step_i [OF this]
  have "Suc INT_MAX - g_i st' < Suc INT_MAX - g_i st" by arith
  then show "((ext, gc, m, params, embd_inp, cb, bound, st'), (ext, gc, m, params, embd_inp, cb, bound, st))
        \<in> measure (\<lambda>(ext, gc, m, params, embd_inp, cb, bound, st). Suc INT_MAX - g_i st)" by simp
qed

declare gen_loop.simps [simp del]

text \<open>
  \<open>gptj_generate\<close>. The prompt is tokenized, \<open>n_predict\<close> is cut to
  \<^verbatim>\<open>std::min(params.n_predict, model.hparams.n_ctx - (int)embd_inp.size())\<close>, the
  evaluator is called once on the ids 0, 1, 2, 3 at position 0 with
  \<open>mem_per_token = 0\<close> (its return value is not read), and the loop runs from \<open>i = 0\<close>.
  \<open>buf_size\<close> is the evaluator's static variable as the call finds it.
\<close>

definition gptj_generate ::
  "'r extern \<Rightarrow> (gptj_model \<Rightarrow> (nat \<times> int list) list \<Rightarrow> nat \<Rightarrow> int list \<Rightarrow> real list) \<Rightarrow> nat \<Rightarrow>
   gptj_model_context \<Rightarrow> string \<Rightarrow> gptj_params \<Rightarrow> callback \<Rightarrow> outcome \<times> 'r gen_state" where
  "gptj_generate ext graph_compute buf_size model_ctx prompt params cb =
     (let params1 = (if seed params < 0 then params\<lparr>seed := time_null ext\<rparr> else params);
          embd_inp = gpt_tokenize (vocab model_ctx) (c_str prompt);
          room = n_ctx (hparams (model model_ctx)) - int (length embd_inp);
          params2 = params1\<lparr>n_predict := min (n_predict params1) room\<rparr>;
          st0 = \<lparr>g_i = 0, g_n_past = 0, g_embd = [], g_logits = [], g_mem_per_token = 0,
                 g_buf_size = buf_size, g_rng = mt19937 ext (seed params1),
                 g_processing_input = True, g_vocab = vocab model_ctx, g_trace = []\<rparr>
      in if room < - (2 ^ 31) then (Crashed Undefined_Behaviour, st0)
         else
          (case gptj_eval ext graph_compute (model model_ctx) [] 0 [0, 1, 2, 3] [] 0 buf_size of
             Inl f \<Rightarrow> (Crashed f, st0)
           | Inr (ok, lg, mpt, bs) \<Rightarrow>
               gen_loop ext graph_compute (model model_ctx) params2 embd_inp cb
                 (size_t (int (length embd_inp) + n_predict params2))
                 (st0\<lparr>g_logits := lg, g_mem_per_token := mpt, g_buf_size := bs,
                      g_trace := [Eval 0 [0, 1, 2, 3]]\<rparr>)))"

section \<open>Observations on a run\<close>

text \<open>Events of a trace by kind.\<close>

definition is_sample :: "event \<Rightarrow> bool" where
  "is_sample e = (case e of Sample p t \<Rightarrow> True | _ \<Rightarrow> False)"

definition is_callback :: "event \<Rightarrow> bool" where
  "is_callback e = (case e of Callback s \<Rightarrow> True | _ \<Rightarrow> False)"

text \<open>The cache position recorded with the first sampled token, the events before the
  first sample, and the number of token ids that the evaluator calls of a trace were given.\<close>

definition first_sample_pos :: "event list \<Rightarrow> nat option" where
  "first_sample_pos tr = (case dropWhile (\<lambda>e. \<not> is_sample e) tr of Sample p t # rest \<Rightarrow> Some p | _ \<Rightarrow> None)"

definition prefill_events :: "event list \<Rightarrow> event list" where
  "prefill_events tr = takeWhile (\<lambda>e. \<not> is_sample e) tr"

definition fed :: "event list \<Rightarrow> nat" where
  "fed tr = sum_list (map (\<lambda>pb. length (snd pb)) (eval_calls tr))"

text \<open>
  The state of the loop while the prompt is being fed, for a prompt of \<open>P\<close> ids: nothing
  has been sampled, the ids evaluated and the ids waiting in \<open>embd\<close> are the first
  \<open>i\<close> of the prompt, and the evaluator has been given \<open>c\<close> ids besides them.
  \<open>sampled_at P c\<close> holds of a trace whose first sample was taken at position \<open>P\<close>,
  after evaluator calls with \<open>c + P\<close> ids in all.
\<close>

definition prefill_inv :: "nat \<Rightarrow> nat \<Rightarrow> 'r gen_state \<Rightarrow> bool" where
  "prefill_inv P c st =
     (g_processing_input st \<and> (\<forall>e \<in> set (g_trace st). \<not> is_sample e) \<and>
      g_n_past st + length (g_embd st) = g_i st \<and> g_i st \<le> P \<and> fed (g_trace st) = c + g_n_past st)"

definition sampled_at :: "nat \<Rightarrow> nat \<Rightarrow> event list \<Rightarrow> bool" where
  "sampled_at P c tr =
     (\<exists>pre tid post. tr = pre @ Sample P tid # post \<and> (\<forall>e \<in> set pre. \<not> is_sample e) \<and> fed pre = c + P)"

text \<open>A \<open>std::partial_sort\<close> whose first \<open>k\<close> elements are those a stable sort by descending
  score puts first, in that order. For \<open>k = 1\<close> this says that the element placed first
  is the earliest one of highest score.\<close>

definition partial_sort_stable :: "(nat \<Rightarrow> (real \<times> int) list \<Rightarrow> (real \<times> int) list) \<Rightarrow> nat \<Rightarrow> bool" where
  "partial_sort_stable ps k = (\<forall>xs. take k (ps k xs) = take k (sort_key (\<lambda>p. - fst p) xs))"

text \<open>A forward pass over a three-token vocabulary whose logits are always strictly
  highest for id 2.\<close>

definition peaks_at_2 ::
  "(gptj_model \<Rightarrow> (nat \<times> int list) list \<Rightarrow> nat \<Rightarrow> int list \<Rightarrow> real list) \<Rightarrow> gptj_model \<Rightarrow> bool" where
  "peaks_at_2 gc m =
     (\<forall>hist p b. length (gc m hist p b) = 3 \<and> gc m hist p b ! 0 < gc m hist p b ! 2 \<and>
                 gc m hist p b ! 1 < gc m hist p b ! 2)"

section \<open>Observations on a model file\<close>

text \<open>
  A tensor record as "load weights" reads it: the number of dimensions, the length of
  the name and the type as 32-bit integers, the extents, then the name. \<open>extent\<close> is
  what \<^verbatim>\<open>ne[k]\<close> holds after the extents are read (1 where the record has none), and
  \<open>record_mismatch\<close> collects the three comparisons of the loop with the tensor found
  under the name. \<open>stream_at\<close> is a file open at a position with no failed read so far.
\<close>

definition record_bytes :: "int list \<Rightarrow> string \<Rightarrow> int \<Rightarrow> string" where
  "record_bytes dims name ttype =
     bytes_of_i32 (int (length dims)) @ bytes_of_i32 (int (length name)) @ bytes_of_i32 ttype @
     concat (map bytes_of_i32 dims) @ name"

definition extent :: "int list \<Rightarrow> nat \<Rightarrow> int" where
  "extent dims k = (if k < length dims then dims ! k else 1)"

definition record_mismatch :: "ggml \<Rightarrow> ggml_tensor \<Rightarrow> int list \<Rightarrow> ggml_type \<Rightarrow> bool" where
  "record_mismatch g t dims ty =
     (ggml_nelements g t \<noteq> extent dims 0 * extent dims 1 \<or> ne0 t \<noteq> extent dims 0 \<or> ne1 t \<noteq> extent dims 1 \<or>
      (size_t (extent dims 0 * extent dims 1) * ggml_type_size g ty) mod 2 ^ 64 div ggml_blck_size g (tensor_type t)
        \<noteq> ggml_nbytes g t)"

definition stream_at :: "string \<Rightarrow> nat \<Rightarrow> ifstream" where
  "stream_at B p = \<lparr>file_bytes = B, file_pos = p, file_failed = False\<rparr>"

section \<open>Concrete instances\<close>

text \<open>A three-token vocabulary, a model around it, and stand-ins for the libraries:
  a full stable sort by descending score for \<open>std::partial_sort\<close>, a distribution that
  always draws its first index, and a forward pass whose logits are highest for id 2.\<close>

definition toy_vocab :: gpt_vocab where
  "toy_vocab = \<lparr>token_to_id = map_of [(''hi'', 0), (''there'', 1), (''<eot>'', 2)],
                 id_to_token = map_of [(0, ''hi''), (1, ''there''), (2, ''<eot>'')]\<rparr>"

definition toy_model :: "int \<Rightarrow> gptj_model" where
  "toy_model ctx_len =
     \<lparr>hparams = \<lparr>n_vocab = 3, n_ctx = ctx_len, n_embd = 1, n_head = 1, n_layer = 1, n_rot = 1, ftype = 0\<rparr>,
      tensors = Map.empty, memory_k = None, memory_v = None, ctx = None\<rparr>"

definition toy_ctx :: "int \<Rightarrow> gptj_model_context" where
  "toy_ctx ctx_len = \<lparr>vocab = toy_vocab, model = toy_model ctx_len\<rparr>"

definition sort_desc :: "nat \<Rightarrow> (real \<times> int) list \<Rightarrow> (real \<times> int) list" where
  "sort_desc k xs = sort_key (\<lambda>p. - fst p) xs"

definition demo_ext :: "nat extern" where
  "demo_ext =
     \<lparr>partial_sort = sort_desc, discrete_distribution = (\<lambda>ps r. (0, Suc r)), mt19937 = (\<lambda>s. 0),
      time_null = 0, ggml_used_mem = (\<lambda>N. 1024 * N), realloc_ok = (\<lambda>n. True),
      grow = (\<lambda>n. (11 * n) div 10)\<rparr>"

definition eot_graph :: "gptj_model \<Rightarrow> (nat \<times> int list) list \<Rightarrow> nat \<Rightarrow> int list \<Rightarrow> real list" where
  "eot_graph m hist p b = [0, 0, 1]"

definition greedy :: "int \<Rightarrow> int \<Rightarrow> gptj_params" where
  "greedy np nb = \<lparr>seed = 0, n_threads = 1, n_predict = np, top_k = 1, top_p = 9 / 10, temp = 1, n_batch = nb\<rparr>"

definition always_continue :: callback where
  "always_continue earlier token = True"

definition stop_at_fourth :: callback where
  "stop_at_fourth earlier token = (length earlier < 3)"

text \<open>A state of the loop for the runs below.\<close>

definition run_state :: "nat \<Rightarrow> nat \<Rightarrow> int list \<Rightarrow> nat \<Rightarrow> bool \<Rightarrow> event list \<Rightarrow> nat gen_state" where
  "run_state i p e r pin tr =
     \<lparr>g_i = i, g_n_past = p, g_embd = e, g_logits = [0, 0, 1], g_mem_per_token = 1024,
      g_buf_size = 268435456, g_rng = r, g_processing_input = pin, g_vocab = toy_vocab, g_trace = tr\<rparr>"

text \<open>Tables for ggml with 4-byte and 2-byte floats and one block format, and a file
  system with one file that does not start with the magic number.\<close>

definition demo_ggml :: ggml where
  "demo_ggml =
     \<lparr>ggml_type_of = (\<lambda>c. if c = 0 then Some GGML_TYPE_F32 else if c = 1 then Some GGML_TYPE_F16
                          else if c = 2 then Some GGML_TYPE_Q4_0 else None),
      ggml_type_size = (\<lambda>ty. if ty = GGML_TYPE_F32 then 4 else if ty = GGML_TYPE_F16 then 2 else 20),
      ggml_blck_size = (\<lambda>ty. if ty = GGML_TYPE_F32 \<or> ty = GGML_TYPE_F16 then 1 else 32),
      ggml_type_sizef = (\<lambda>ty. if ty = GGML_TYPE_F32 then 4 else if ty = GGML_TYPE_F16 then 2 else 20 / 32),
      ggml_nelements = (\<lambda>t. ne0 t * ne1 t * ne2 t * ne3 t),
      ggml_nbytes = (\<lambda>t. nat (ne0 t * ne1 t * ne2 t * ne3 t)
                          * (if tensor_type t = GGML_TYPE_F32 then 4 else if tensor_type t = GGML_TYPE_F16 then 2 else 20)
                          div (if tensor_type t = GGML_TYPE_F32 \<or> tensor_type t = GGML_TYPE_F16 then 1 else 32)),
      ggml_init_ok = (\<lambda>n. True)\<rparr>"

definition demo_fs :: "string \<rightharpoonup> string" where
  "demo_fs = [''bad.bin'' \<mapsto> ''GGUF-not-this-format'']"

text \<open>A complete model file: the magic number, hyperparameters with one vocabulary entry,
  one embedding dimension and no layers, the vocabulary (\<open>a\<close>), and one record for
  \<open>transformer.ln_f.bias\<close> of type 0 with a four-byte payload. \<open>tiny_model\<close> is the model
  when the loop over the records starts.\<close>

definition tiny_file :: string where
  "tiny_file =
     bytes_of_i32 0x67676d6c @ bytes_of_i32 1 @ bytes_of_i32 1 @ bytes_of_i32 1 @ bytes_of_i32 1 @
     bytes_of_i32 0 @ bytes_of_i32 1 @ bytes_of_i32 0 @ bytes_of_i32 1 @ bytes_of_i32 1 @ ''a'' @
     record_bytes [1] ''transformer.ln_f.bias'' 0 @ ''ABCD''"

definition tiny_fs :: "string \<rightharpoonup> string" where
  "tiny_fs = [''tiny.bin'' \<mapsto> tiny_file]"

definition tiny_hparams :: gptj_hparams where
  "tiny_hparams = \<lparr>n_vocab = 1, n_ctx = 1, n_embd = 1, n_head = 1, n_layer = 0, n_rot = 1, ftype = 0\<rparr>"

definition tiny_model :: gptj_model where
  "tiny_model =
     prepare_tensors demo_ggml GGML_TYPE_F32
       ((model new_model_context)\<lparr>hparams := tiny_hparams,
                                   ctx := Some (ctx_size_of demo_ggml tiny_hparams GGML_TYPE_F32)\<rparr>)"

section \<open>Properties of the tokenizer\<close>

lemma find_longest_all_None:
  assumes "\<forall>len. 1 \<le> len \<and> len \<le> j - i \<longrightarrow> t (substr word i len) = None" and "i \<le> j"
  shows "find_longest t word i j = (i, None)"
  using assms
proof (induction j)
  case 0
  then show ?case by simp
next
  case (Suc j)
  show ?case
  proof (cases "i < Suc j")
    case True
    then have "t (substr word i (Suc j - i)) = None" using Suc.prems(1) by simp
    moreover have "find_longest t word i j = (i, None)"
    proof (rule Suc.IH)
      show "\<forall>len. 1 \<le> len \<and> len \<le> j - i \<longrightarrow> t (substr word i len) = None"
        using Suc.prems(1) by auto
      show "i \<le> j" using True by simp
    qed
    ultimately show ?thesis using True by simp
  next
    case False
    with Suc.prems(2) have "i = Suc j" by simp
    then show ?thesis by simp
  qed
qed

lemma tokenize_from_acc:
  "tokenize_from t word i tokens diag =
     (tokens @ fst (tokenize_from t word i [] []), diag @ snd (tokenize_from t word i [] []))"
proof (induction "length word - i" arbitrary: i tokens diag rule: less_induct)
  case less
  show ?case
  proof (cases "i < length word")
    case False
    then show ?thesis by (simp add: tokenize_from.simps [of t word i])
  next
    case True
    obtain i' pushed unknown brk where s: "tok_step t word i = (i', pushed, unknown, brk)"
      by (cases "tok_step t word i") auto
    show ?thesis
    proof (cases brk)
      case True
      with s \<open>i < length word\<close> show ?thesis by (simp add: tokenize_from.simps [of t word i])
    next
      case False
      from tok_step_advances [OF True s] True have m: "length word - i' < length word - i" by simp
      have a: "tokenize_from t word i tokens diag = tokenize_from t word i' (tokens @ pushed) (diag @ unknown)"
        using s True False by (simp add: tokenize_from.simps [of t word i])
      have b: "tokenize_from t word i [] [] = tokenize_from t word i' pushed unknown"
        using s True False by (simp add: tokenize_from.simps [of t word i])
      show ?thesis
        unfolding a b less [OF m, of "tokens @ pushed" "diag @ unknown"] less [OF m, of pushed unknown]
        by simp
    qed
  qed
qed

lemma tokenize_words_foldl:
  "foldl (\<lambda>acc word. if word = [] then acc else tokenize_from t word 0 (fst acc) (snd acc)) acc ws =
     (fst acc @ concat (map (\<lambda>w. fst (tokenize_from t w 0 [] [])) ws),
      snd acc @ concat (map (\<lambda>w. snd (tokenize_from t w 0 [] [])) ws))"
proof (induction ws arbitrary: acc)
  case Nil
  then show ?case by simp
next
  case (Cons w ws)
  have e: "tokenize_from t [] 0 [] [] = ([], [])" by (simp add: tokenize_from.simps [of t "[]" 0])
  show ?case
  proof (cases "w = []")
    case True
    then show ?thesis by (simp add: Cons.IH e)
  next
    case False
    then show ?thesis
      by (simp add: Cons.IH tokenize_from_acc [of t w 0 "fst acc" "snd acc"])
  qed
qed

lemma tokenize_words_concat:
  "tokenize_words t ws =
     (concat (map (\<lambda>w. fst (tokenize_from t w 0 [] [])) ws),
      concat (map (\<lambda>w. snd (tokenize_from t w 0 [] [])) ws))"
  by (simp add: tokenize_words_def tokenize_words_foldl)

lemma substr_one: "i < length word \<Longrightarrow> substr word i 1 = [word ! i]"
  by (simp add: substr_def take_Suc_conv_app_nth [of 0] hd_drop_conv_nth take_Suc)

text \<open>
  Claim C7. Where no substring of the word that starts at a position, of any length down
  to one character, is in the vocabulary, the tokenizer pushes no id for the character
  there, writes that one character to the diagnostics and moves on by exactly one
  character without leaving the loop. This holds on both ways into the last part of the
  loop body: in a pass that starts at the position, and in the pass whose longest match
  ends at the position (the test \<^verbatim>\<open>j == i\<close> after \<^verbatim>\<open>i = j; break\<close>), where the id of the
  match is the only id pushed. The loop of the word goes on from the next position, and
  its result is the ids and diagnostics so far, the character, and what the rest of the
  word gives. For a text in which the word stands between the words \<open>pre\<close> and \<open>post\<close>,
  \<open>gpt_tokenize\<close> returns the ids of \<open>pre\<close>, of the word and of \<open>post\<close> in this order,
  with the diagnostics in the same order. The tokenizer has no error result.
\<close>

theorem unknown_character_skipped:
  assumes "i < length word"
    and "\<forall>len. 1 \<le> len \<and> len \<le> length word - i \<longrightarrow> t (substr word i len) = None"
  shows "tok_step t word i = (i + 1, [], [[word ! i]], False) \<and>
         tokenize_from t word i tokens diag = tokenize_from t word (i + 1) tokens (diag @ [[word ! i]]) \<and>
         tokenize_from t word i tokens diag =
           (tokens @ fst (tokenize_from t word (i + 1) [] []),
            diag @ [word ! i] # snd (tokenize_from t word (i + 1) [] [])) \<and>
         (\<forall>i0 tid. find_longest t word i0 (length word) = (i, Some tid) \<longrightarrow>
            tok_step t word i0 = (i + 1, [tid], [[word ! i]], False) \<and>
            tokenize_from t word i0 tokens diag =
              tokenize_from t word (i + 1) (tokens @ [tid]) (diag @ [[word ! i]]) \<and>
            tokenize_from t word i0 tokens diag =
              (tokens @ tid # fst (tokenize_from t word (i + 1) [] []),
               diag @ [word ! i] # snd (tokenize_from t word (i + 1) [] []))) \<and>
         (\<forall>v text pre post. token_to_id v = t \<and> split_words text = pre @ word # post \<longrightarrow>
            gpt_tokenize_log v text =
              (concat (map (\<lambda>w. fst (tokenize_from t w 0 [] [])) pre) @ fst (tokenize_from t word 0 [] []) @
                 concat (map (\<lambda>w. fst (tokenize_from t w 0 [] [])) post),
               concat (map (\<lambda>w. snd (tokenize_from t w 0 [] [])) pre) @ snd (tokenize_from t word 0 [] []) @
                 concat (map (\<lambda>w. snd (tokenize_from t w 0 [] [])) post)) \<and>
            gpt_tokenize v text =
              concat (map (\<lambda>w. fst (tokenize_from t w 0 [] [])) pre) @ fst (tokenize_from t word 0 [] []) @
                concat (map (\<lambda>w. fst (tokenize_from t w 0 [] [])) post))"
proof -
  have fl: "find_longest t word i (length word) = (i, None)"
    using assms by (intro find_longest_all_None) auto
  have sub: "substr word i 1 = [word ! i]" using assms(1) by (rule substr_one)
  have none: "t (substr word i 1) = None" using assms by simp
  with fl sub assms(1) have step: "tok_step t word i = (i + 1, [], [[word ! i]], False)"
    by (simp add: tok_step_def Let_def)
  with assms(1) have loop:
    "tokenize_from t word i tokens diag = tokenize_from t word (i + 1) tokens (diag @ [[word ! i]])"
    by (simp add: tokenize_from.simps [of t word i])
  have acc: "tokenize_from t word (i + 1) ts (diag @ [[word ! i]]) =
           (ts @ fst (tokenize_from t word (i + 1) [] []),
            diag @ [word ! i] # snd (tokenize_from t word (i + 1) [] []))" for ts
    using tokenize_from_acc [of t word "i + 1" ts "diag @ [[word ! i]]"] by simp
  have through: "tok_step t word i0 = (i + 1, [tid], [[word ! i]], False) \<and>
      tokenize_from t word i0 tokens diag =
        tokenize_from t word (i + 1) (tokens @ [tid]) (diag @ [[word ! i]]) \<and>
      tokenize_from t word i0 tokens diag =
        (tokens @ tid # fst (tokenize_from t word (i + 1) [] []),
         diag @ [word ! i] # snd (tokenize_from t word (i + 1) [] []))"
    if f: "find_longest t word i0 (length word) = (i, Some tid)" for i0 tid
  proof -
    from f have "snd (find_longest t word i0 (length word)) = Some tid" by simp
    from find_longest_Some [OF this] f have lt: "i0 < i" by simp
    from f none sub assms(1) have s: "tok_step t word i0 = (i + 1, [tid], [[word ! i]], False)"
      by (simp add: tok_step_def Let_def)
    from lt assms(1) have "i0 < length word" by simp
    with s have "tokenize_from t word i0 tokens diag =
        tokenize_from t word (i + 1) (tokens @ [tid]) (diag @ [[word ! i]])"
      by (simp add: tokenize_from.simps [of t word i0])
    with s acc [of "tokens @ [tid]"] show ?thesis by simp
  qed
  have whole: "gpt_tokenize_log v s =
              (concat (map (\<lambda>w. fst (tokenize_from t w 0 [] [])) pre) @ fst (tokenize_from t word 0 [] []) @
                 concat (map (\<lambda>w. fst (tokenize_from t w 0 [] [])) post),
               concat (map (\<lambda>w. snd (tokenize_from t w 0 [] [])) pre) @ snd (tokenize_from t word 0 [] []) @
                 concat (map (\<lambda>w. snd (tokenize_from t w 0 [] [])) post)) \<and>
            gpt_tokenize v s =
              concat (map (\<lambda>w. fst (tokenize_from t w 0 [] [])) pre) @ fst (tokenize_from t word 0 [] []) @
                concat (map (\<lambda>w. fst (tokenize_from t w 0 [] [])) post)"
    if "token_to_id v = t \<and> split_words s = pre @ word # post" for v s pre post
    using that by (simp add: gpt_tokenize_def gpt_tokenize_log_def tokenize_words_concat)
  from loop acc [of tokens] have direct: "tokenize_from t word i tokens diag =
           (tokens @ fst (tokenize_from t word (i + 1) [] []),
            diag @ [word ! i] # snd (tokenize_from t word (i + 1) [] []))" by simp
  from step loop direct through whole show ?thesis by blast
qed

theorem unknown_character_skipped_witness:
  "split_words ''? hix there'' = [''?'', '' hix'', '' there''] \<and>
   (3 :: nat) < length '' hix'' \<and>
   token_to_id toy_vocab (substr '' hix'' 3 1) = None \<and>
   find_longest (token_to_id toy_vocab) '' hix'' 1 (length '' hix'') = (3, Some 0) \<and>
   tok_step (token_to_id toy_vocab) '' hix'' 3 = (4, [], [''x''], False) \<and>
   tok_step (token_to_id toy_vocab) '' hix'' 1 = (4, [0], [''x''], False) \<and>
   tokenize_from (token_to_id toy_vocab) '' hix'' 1 [] [''?'', '' ''] = ([0], [''?'', '' '', ''x'']) \<and>
   gpt_tokenize_log toy_vocab ''? hix there'' = ([0, 1], [''?'', '' '', ''x'', '' '']) \<and>
   gpt_tokenize toy_vocab ''? hix there'' = [0, 1]"
proof -
  have sp: "split_words ''? hix there'' = [''?''] @ '' hix'' # ['' there'']" by code_simp
  have lt: "(3 :: nat) < length '' hix''" by simp
  have none: "\<forall>len. 1 \<le> len \<and> len \<le> length '' hix'' - 3 \<longrightarrow>
                token_to_id toy_vocab (substr '' hix'' 3 len) = None"
    by (auto simp: toy_vocab_def substr_def)
  have fl: "find_longest (token_to_id toy_vocab) '' hix'' 1 (length '' hix'') = (3, Some 0)"
    by code_simp
  have pre: "tokenize_from (token_to_id toy_vocab) ''?'' 0 [] [] = ([], [''?''])" by code_simp
  have post: "tokenize_from (token_to_id toy_vocab) '' there'' 0 [] [] = ([1], ['' ''])" by code_simp
  have rest: "tokenize_from (token_to_id toy_vocab) '' hix'' 4 [] [] = ([], [])" by code_simp
  have word: "tokenize_from (token_to_id toy_vocab) '' hix'' 0 [] [] = ([0], ['' '', ''x''])" by code_simp
  note th = unknown_character_skipped [OF lt none, of "[]" "[''?'', '' '']"]
  from th have a: "tok_step (token_to_id toy_vocab) '' hix'' 3 = (4, [], [''x''], False)" by simp
  from th have "find_longest (token_to_id toy_vocab) '' hix'' 1 (length '' hix'') = (3, Some 0) \<longrightarrow>
      tok_step (token_to_id toy_vocab) '' hix'' 1 = (3 + 1, [0], [['' hix'' ! 3]], False) \<and>
      tokenize_from (token_to_id toy_vocab) '' hix'' 1 [] [''?'', '' ''] =
        ([] @ 0 # fst (tokenize_from (token_to_id toy_vocab) '' hix'' (3 + 1) [] []),
         [''?'', '' ''] @ ['' hix'' ! 3] # snd (tokenize_from (token_to_id toy_vocab) '' hix'' (3 + 1) [] []))"
    by blast
  with fl have "tok_step (token_to_id toy_vocab) '' hix'' 1 = (3 + 1, [0], [['' hix'' ! 3]], False) \<and>
      tokenize_from (token_to_id toy_vocab) '' hix'' 1 [] [''?'', '' ''] =
        ([] @ 0 # fst (tokenize_from (token_to_id toy_vocab) '' hix'' (3 + 1) [] []),
         [''?'', '' ''] @ ['' hix'' ! 3] # snd (tokenize_from (token_to_id toy_vocab) '' hix'' (3 + 1) [] []))"
    by blast
  then have b: "tok_step (token_to_id toy_vocab) '' hix'' 1 = (4, [0], [''x''], False)"
    and c: "tokenize_from (token_to_id toy_vocab) '' hix'' 1 [] [''?'', '' ''] = ([0], [''?'', '' '', ''x''])"
    by (simp_all add: rest)
  from th sp have "gpt_tokenize_log toy_vocab ''? hix there'' =
              (concat (map (\<lambda>w. fst (tokenize_from (token_to_id toy_vocab) w 0 [] [])) [''?'']) @
               fst (tokenize_from (token_to_id toy_vocab) '' hix'' 0 [] []) @
               concat (map (\<lambda>w. fst (tokenize_from (token_to_id toy_vocab) w 0 [] [])) ['' there'']),
               concat (map (\<lambda>w. snd (tokenize_from (token_to_id toy_vocab) w 0 [] [])) [''?'']) @
               snd (tokenize_from (token_to_id toy_vocab) '' hix'' 0 [] []) @
               concat (map (\<lambda>w. snd (tokenize_from (token_to_id toy_vocab) w 0 [] [])) ['' there'']))"
    by blast
  then have d: "gpt_tokenize_log toy_vocab ''? hix there'' = ([0, 1], [''?'', '' '', ''x'', '' ''])"
    by (simp add: pre post word)
  then have e: "gpt_tokenize toy_vocab ''? hix there'' = [0, 1]" by (simp add: gpt_tokenize_def)
  have n1: "token_to_id toy_vocab (substr '' hix'' 3 1) = None" using none by simp
  from sp lt n1 fl a b c d e show ?thesis by simp
qed

text \<open>
  Claim C5 as stated fails: in the three-token vocabulary the text of id 2 is split into
  the words \<open><\<close>, \<open>eot\<close> and \<open>>\<close>, none of which is a token, so its tokenization is
  empty.
\<close>

theorem tokenizer_round_trip_counterexample:
  "id_to_token toy_vocab 2 = Some ''<eot>'' \<and> token_to_id toy_vocab ''<eot>'' = Some 2 \<and>
   gpt_tokenize toy_vocab ''<eot>'' = []"
proof -
  have "gpt_tokenize toy_vocab ''<eot>'' = []" by code_simp
  then show ?thesis by (simp add: toy_vocab_def)
qed

text \<open>
  Claim C5, amended. For a token id whose text the splitting pattern keeps as one word,
  and under which the vocabulary finds that id again, tokenizing the text gives exactly
  that id.
\<close>

theorem tokenizer_round_trip:
  assumes "id_to_token v i = Some w" and "token_to_id v w = Some i" and "split_words w = [w]"
  shows "gpt_tokenize v w = [i]"
proof -
  from assms(3) have ne: "w \<noteq> []"
    by (auto simp: split_words.simps [of "[]"])
  then obtain j where j: "length w = Suc j" by (cases w) auto
  have "find_longest (token_to_id v) w 0 (length w) = (length w, Some i)"
    unfolding j using assms(2) j by (simp add: substr_def)
  then have "tok_step (token_to_id v) w 0 = (length w, [i], [], True)"
    by (simp add: tok_step_def Let_def)
  with ne have "tokenize_from (token_to_id v) w 0 [] [] = ([i], [])"
    by (simp add: tokenize_from.simps [of _ w 0])
  with ne assms(3) show ?thesis
    by (simp add: gpt_tokenize_def gpt_tokenize_log_def tokenize_words_def)
qed

theorem tokenizer_round_trip_witness:
  "id_to_token toy_vocab 1 = Some ''there'' \<and> token_to_id toy_vocab ''there'' = Some 1 \<and>
   split_words ''there'' = [''there''] \<and> gpt_tokenize toy_vocab ''there'' = [1]"
proof -
  have a: "id_to_token toy_vocab 1 = Some ''there''" by (simp add: toy_vocab_def)
  have b: "token_to_id toy_vocab ''there'' = Some 1" by (simp add: toy_vocab_def)
  have c: "split_words ''there'' = [''there'']" by code_simp
  from tokenizer_round_trip [OF a b c] a b c show ?thesis by simp
qed

section \<open>Properties of the loader\<close>

lemma four_digits:
  fixes u :: nat
  assumes "u < 4294967296"
  shows "u mod 256 + 256 * (u div 256 mod 256 + 256 * (u div 65536 mod 256 + 256 * (u div 16777216 mod 256))) = u"
proof -
  have q2: "u div 65536 = u div 256 div 256" by (simp add: div_mult2_eq)
  have q3: "u div 16777216 = u div 256 div 256 div 256" by (simp add: div_mult2_eq)
  have small: "u div 16777216 < 256" using assms by (simp add: less_mult_imp_div_less)
  have "u div 256 div 256 div 256 mod 256 = u div 256 div 256 div 256"
    using small unfolding q3 by simp
  then show ?thesis unfolding q2 q3 by simp
qed

lemma u32_bytes: "u32_of (bytes_of_i32 x) = nat (x mod 2 ^ 32)"
proof -
  define u where "u = nat (x mod 2 ^ 32)"
  have u: "u < 4294967296" unfolding u_def by simp
  then have "u div 16777216 < 256" by (simp add: less_mult_imp_div_less)
  then have "u div 16777216 mod 256 = u div 16777216" by simp
  with four_digits [OF u] show ?thesis
    unfolding u32_of_def bytes_of_i32_def u_def [symmetric] Let_def by simp
qed

lemma i32_bytes:
  assumes "in_int32 x"
  shows "i32_of (bytes_of_i32 x) = x"
proof (cases "0 \<le> x")
  case True
  with assms have "x mod 2 ^ 32 = x" by (simp add: in_int32_def)
  with True assms show ?thesis
    by (simp add: i32_of_def u32_bytes Let_def in_int32_def)
next
  case False
  with assms have r: "0 \<le> x + 2 ^ 32" "x + 2 ^ 32 < 2 ^ 32" by (simp_all add: in_int32_def)
  have "x mod 2 ^ 32 = (x + 2 ^ 32) mod 2 ^ 32" by simp
  also have "\<dots> = x + 2 ^ 32" using r by (simp only: mod_pos_pos_trivial)
  finally have "x mod 2 ^ 32 = x + 2 ^ 32" .
  with False assms show ?thesis
    by (simp add: i32_of_def u32_bytes Let_def in_int32_def)
qed

lemma length_bytes_of_i32: "length (bytes_of_i32 x) = 4"
  by (simp add: bytes_of_i32_def Let_def)

text \<open>
  Claim C9. A file whose first four bytes, read as a 32-bit number, are not
  \<open>0x67676d6c\<close> makes \<open>gptj_model_load\<close> return \<open>false\<close> with the model and the
  vocabulary as they were: no ggml context has been made (\<open>ctx\<close>), no tensor has been
  entered and the key/value memory has not been made.
\<close>

theorem bad_magic_rejected:
  assumes "fs fname = Some bytes" and "4 \<le> length bytes" and "u32_of bytes \<noteq> 0x67676d6c"
  shows "gptj_model_load g fs fname m v = (Returned False, m, v)"
proof -
  have "read_u32 \<lparr>file_bytes = bytes, file_pos = 0, file_failed = False\<rparr>
        = (Some (u32_of bytes), \<lparr>file_bytes = bytes, file_pos = 4, file_failed = False\<rparr>)"
    using assms(2) by (simp add: read_u32_def fin_read_def Let_def u32_of_def min_def)
  with assms show ?thesis by (simp add: gptj_model_load_def)
qed

theorem bad_magic_rejected_witness:
  "demo_fs ''bad.bin'' = Some ''GGUF-not-this-format'' \<and> 4 \<le> length ''GGUF-not-this-format'' \<and>
   u32_of ''GGUF-not-this-format'' \<noteq> 0x67676d6c \<and>
   gptj_model_load demo_ggml demo_fs ''bad.bin'' (model new_model_context) (vocab new_model_context)
     = (Returned False, model new_model_context, vocab new_model_context) \<and>
   ctx (model new_model_context) = None"
proof -
  have a: "demo_fs ''bad.bin'' = Some ''GGUF-not-this-format''" by (simp add: demo_fs_def)
  have b: "4 \<le> length ''GGUF-not-this-format''" by simp
  have c: "u32_of ''GGUF-not-this-format'' \<noteq> 0x67676d6c" by (simp add: u32_of_def)
  from bad_magic_rejected [of demo_fs "''bad.bin''" "''GGUF-not-this-format''", OF a b c] a b c
  show ?thesis by (simp add: new_model_context_def)
qed

lemma drop_after: "drop p B = chunk @ rest \<Longrightarrow> length chunk = n \<Longrightarrow> drop (p + n) B = rest"
  by (metis add.commute append_eq_conv_conj drop_drop)

lemma fin_read_at:
  assumes "drop p B = chunk @ rest" and "length chunk = n"
  shows "fin_read (stream_at B p) n buf = (chunk @ drop n buf, stream_at B (p + n))"
  using assms by (simp add: fin_read_def Let_def stream_at_def)

lemma read_i32_at:
  assumes "drop p B = bytes_of_i32 x @ rest" and "in_int32 x"
  shows "read_i32 (stream_at B p) = (Some x, stream_at B (p + 4))"
  using fin_read_at [OF assms(1) length_bytes_of_i32, of "[]"] assms(2)
  by (simp add: read_i32_def Let_def i32_bytes stream_at_def)

lemma read_i32_into_at:
  assumes "drop p B = bytes_of_i32 x @ rest" and "in_int32 x"
  shows "read_i32_into (stream_at B p) old = (x, stream_at B (p + 4))"
  using fin_read_at [OF assms(1) length_bytes_of_i32, of "bytes_of_i32 old"] assms(2)
  by (simp add: read_i32_into_def Let_def i32_bytes length_bytes_of_i32)

lemma read_dims_at:
  assumes "drop p B = concat (map bytes_of_i32 dims) @ rest" and "length dims \<le> 2"
    and "\<forall>d \<in> set dims. in_int32 d"
  shows "read_dims (stream_at B p) (int (length dims))
         = ((extent dims 0, extent dims 1), stream_at B (p + 4 * length dims))"
proof -
  from assms(2) consider "dims = []" | a where "dims = [a]" | a b where "dims = [a, b]"
    by (cases dims rule: list.exhaust; cases "tl dims" rule: list.exhaust; cases "tl (tl dims)") auto
  then show ?thesis
  proof cases
    case 1
    then show ?thesis by (simp add: read_dims_def extent_def)
  next
    case 2
    with assms have "drop p B = bytes_of_i32 a @ rest" "in_int32 a" by simp_all
    from read_i32_into_at [OF this, of 1] 2 show ?thesis
      by (simp add: read_dims_def extent_def Let_def)
  next
    case 3
    with assms have a: "drop p B = bytes_of_i32 a @ (bytes_of_i32 b @ rest)" "in_int32 a"
      and b: "in_int32 b" by simp_all
    from drop_after [OF a(1) length_bytes_of_i32] have "drop (p + 4) B = bytes_of_i32 b @ rest" .
    from read_i32_into_at [OF a, of 1] read_i32_into_at [OF this b, of 1] 3 show ?thesis
      by (simp add: read_dims_def extent_def Let_def ac_simps)
  qed
qed

lemma c_str_no_nul: "CHR 0x00 \<notin> set s \<Longrightarrow> c_str s = s"
  by (auto simp: c_str_def takeWhile_eq_all_conv)

lemma load_record_at:
  assumes at: "drop p B = record_bytes dims name ttype @ payload @ rest"
    and dims: "length dims \<le> 2" "\<forall>d \<in> set dims. in_int32 d" "in_int32 (extent dims 0 * extent dims 1)"
    and name: "length name < 2 ^ 31" "CHR 0x00 \<notin> set name"
    and ty: "in_int32 ttype" "ggml_type_of g ttype = Some ty"
    and blck: "\<forall>t. ggml_blck_size g t \<noteq> 0"
  shows "load_record g (stream_at B p) m =
     (case tensors m name of
        None \<Rightarrow> Inl (Returned False, stream_at B (p + length (record_bytes dims name ttype)), m)
      | Some t \<Rightarrow>
          if record_mismatch g t dims ty
          then Inl (Returned False, stream_at B (p + length (record_bytes dims name ttype)), m)
          else Inr (snd (fin_read (stream_at B (p + length (record_bytes dims name ttype))) (ggml_nbytes g t) (tensor_data t)),
                    m\<lparr>tensors := (tensors m)(name \<mapsto>
                        t\<lparr>tensor_data := fst (fin_read (stream_at B (p + length (record_bytes dims name ttype)))
                                                 (ggml_nbytes g t) (tensor_data t))\<rparr>)\<rparr>))"
proof -
  let ?nd = "int (length dims)" and ?len = "int (length name)"
  let ?D = "concat (map bytes_of_i32 dims)"
  have lD: "length ?D = 4 * length dims"
    by (induction dims) (simp_all add: length_bytes_of_i32)
  have r0: "drop p B = bytes_of_i32 ?nd @ (bytes_of_i32 ?len @ bytes_of_i32 ttype @ ?D @ name @ payload @ rest)"
    using at by (simp add: record_bytes_def)
  define p1 where "p1 = p + 4"
  define p2 where "p2 = p1 + 4"
  define p3 where "p3 = p2 + 4"
  define p4 where "p4 = p3 + 4 * length dims"
  define p5 where "p5 = p4 + length name"
  from drop_after [OF r0 length_bytes_of_i32]
  have r1: "drop p1 B = bytes_of_i32 ?len @ (bytes_of_i32 ttype @ ?D @ name @ payload @ rest)"
    unfolding p1_def .
  from drop_after [OF r1 length_bytes_of_i32]
  have r2: "drop p2 B = bytes_of_i32 ttype @ (?D @ name @ payload @ rest)" unfolding p2_def .
  from drop_after [OF r2 length_bytes_of_i32]
  have r3: "drop p3 B = ?D @ (name @ payload @ rest)" unfolding p3_def .
  from drop_after [OF r3 lD]
  have r4: "drop p4 B = name @ (payload @ rest)" unfolding p4_def .
  have ind: "in_int32 ?nd" using dims(1) by (simp add: in_int32_def)
  have inl: "in_int32 ?len" using name(1) by (simp add: in_int32_def)
  have h1: "read_i32 (stream_at B p) = (Some ?nd, stream_at B p1)"
    unfolding p1_def by (rule read_i32_at [OF r0 ind])
  have h2: "read_i32 (stream_at B p1) = (Some ?len, stream_at B p2)"
    unfolding p2_def by (rule read_i32_at [OF r1 inl])
  have h3: "read_i32 (stream_at B p2) = (Some ttype, stream_at B p3)"
    unfolding p3_def by (rule read_i32_at [OF r2 ty(1)])
  have d: "read_dims (stream_at B p3) ?nd = ((extent dims 0, extent dims 1), stream_at B p4)"
    unfolding p4_def by (rule read_dims_at [OF r3 dims(1,2)])
  have n: "fin_read (stream_at B p4) (length name) (replicate (length name) (CHR 0x00))
           = (name, stream_at B p5)"
    unfolding p5_def using fin_read_at [OF r4 refl, of "replicate (length name) (CHR 0x00)"] by simp
  have pos: "p + length (record_bytes dims name ttype) = p5"
    by (simp add: record_bytes_def length_bytes_of_i32 lD p1_def p2_def p3_def p4_def p5_def)
  have nf: "\<not> file_failed (stream_at B q)" for q by (simp add: stream_at_def)
  have bz: "ggml_blck_size g t \<noteq> 0" for t using blck by simp
  show ?thesis
    unfolding pos using dims(1,3) ty(2)
    by (auto simp: bz load_record_def Let_def h1 h2 h3 d n nf c_str_no_nul [OF name(2)] record_mismatch_def
          split: option.splits)
qed

lemma load_weights_eof:
  assumes "length B \<le> q"
  shows "load_weights g (stream_at B q) m = (Returned True, (stream_at B q)\<lparr>file_failed := True\<rparr>, m)"
proof -
  have "load_record g (stream_at B q) m = Inl (Returned True, (stream_at B q)\<lparr>file_failed := True\<rparr>, m)"
    using assms by (simp add: load_record_def read_i32_def fin_read_def Let_def stream_at_def)
  then show ?thesis by (simp add: load_weights.simps [of g "stream_at B q" m])
qed

lemma model_load_weights:
  assumes "fs fname = Some bytes"
    and "read_u32 (stream_at bytes 0) = (Some 0x67676d6c, fin1)"
    and "read_hparams fin1 (hparams m0) = (hp, fin2)"
    and "read_i32_into fin2 0 = (n_vocab hp, fin3)"
    and "read_vocab (nat (n_vocab hp)) 0 fin3 [] v0 = Inr (v1, fin4)"
    and "ggml_ftype_to_ggml_type (ftype hp) = wtype" and "wtype \<noteq> GGML_TYPE_COUNT"
    and "ggml_init_ok g (ctx_size_of g hp wtype)" and "0 \<le> n_layer hp"
  shows "gptj_model_load g fs fname m0 v0 =
           (fst (load_weights g fin4 (prepare_tensors g wtype (m0\<lparr>hparams := hp, ctx := Some (ctx_size_of g hp wtype)\<rparr>))),
            snd (snd (load_weights g fin4 (prepare_tensors g wtype (m0\<lparr>hparams := hp, ctx := Some (ctx_size_of g hp wtype)\<rparr>)))),
            v1)"
proof -
  let ?m = "prepare_tensors g wtype (m0\<lparr>hparams := hp, ctx := Some (ctx_size_of g hp wtype)\<rparr>)"
  obtain out fin5 m3 where L: "load_weights g fin4 ?m = (out, fin5, m3)"
    by (cases "load_weights g fin4 ?m") auto
  have s: "\<lparr>file_bytes = bytes, file_pos = 0, file_failed = False\<rparr> = stream_at bytes 0"
    by (simp add: stream_at_def)
  show ?thesis
    unfolding gptj_model_load_def s assms(1) option.case assms(2) prod.case Let_def assms(3) fst_conv snd_conv
    using assms(4-9) L by simp
qed

lemma tiny_len: "length tiny_file = 82"
  by (simp add: tiny_file_def record_bytes_def length_bytes_of_i32)

lemma read_u32_at:
  assumes "drop p B = bytes_of_i32 x @ rest"
  shows "read_u32 (stream_at B p) = (Some (nat (x mod 2 ^ 32)), stream_at B (p + 4))"
  using fin_read_at [OF assms length_bytes_of_i32, of "[]"]
  by (simp add: read_u32_def Let_def u32_bytes stream_at_def)

lemma tiny_magic: "read_u32 (stream_at tiny_file 0) = (Some 0x67676d6c, stream_at tiny_file 4)"
  using read_u32_at [of 0 tiny_file "0x67676d6c"] by (simp add: tiny_file_def)

lemma tiny_hp: "read_hparams (stream_at tiny_file 4) default_hparams = (tiny_hparams, stream_at tiny_file 32)"
proof -
  have i: "in_int32 0" "in_int32 1" by (simp_all add: in_int32_def)
  have 1: "read_i32_into (stream_at tiny_file 4) old = (1, stream_at tiny_file 8)" for old
    using read_i32_into_at [of 4 tiny_file 1 _ old] i by (simp add: tiny_file_def length_bytes_of_i32)
  have 2: "read_i32_into (stream_at tiny_file 8) old = (1, stream_at tiny_file 12)" for old
    using read_i32_into_at [of 8 tiny_file 1 _ old] i by (simp add: tiny_file_def length_bytes_of_i32)
  have 3: "read_i32_into (stream_at tiny_file 12) old = (1, stream_at tiny_file 16)" for old
    using read_i32_into_at [of 12 tiny_file 1 _ old] i by (simp add: tiny_file_def length_bytes_of_i32)
  have 4: "read_i32_into (stream_at tiny_file 16) old = (1, stream_at tiny_file 20)" for old
    using read_i32_into_at [of 16 tiny_file 1 _ old] i by (simp add: tiny_file_def length_bytes_of_i32)
  have 5: "read_i32_into (stream_at tiny_file 20) old = (0, stream_at tiny_file 24)" for old
    using read_i32_into_at [of 20 tiny_file 0 _ old] i by (simp add: tiny_file_def length_bytes_of_i32)
  have 6: "read_i32_into (stream_at tiny_file 24) old = (1, stream_at tiny_file 28)" for old
    using read_i32_into_at [of 24 tiny_file 1 _ old] i by (simp add: tiny_file_def length_bytes_of_i32)
  have 7: "read_i32_into (stream_at tiny_file 28) old = (0, stream_at tiny_file 32)" for old
    using read_i32_into_at [of 28 tiny_file 0 _ old] i by (simp add: tiny_file_def length_bytes_of_i32)
  show ?thesis by (simp add: read_hparams_def Let_def 1 2 3 4 5 6 7 tiny_hparams_def)
qed

lemma tiny_count: "read_i32_into (stream_at tiny_file 32) 0 = (n_vocab tiny_hparams, stream_at tiny_file 36)"
  using read_i32_into_at [of 32 tiny_file 1 _ 0]
  by (simp add: tiny_file_def length_bytes_of_i32 in_int32_def tiny_hparams_def)

lemma tiny_vocab:
  "read_vocab (nat (n_vocab tiny_hparams)) 0 (stream_at tiny_file 36) [] \<lparr>token_to_id = Map.empty, id_to_token = Map.empty\<rparr>
   = Inr (\<lparr>token_to_id = [''a'' \<mapsto> 0], id_to_token = [0 \<mapsto> ''a'']\<rparr>, stream_at tiny_file 41)"
proof -
  have l: "read_u32 (stream_at tiny_file 36) = (Some 1, stream_at tiny_file 40)"
    using read_u32_at [of 36 tiny_file 1] by (simp add: tiny_file_def length_bytes_of_i32)
  have w: "fin_read (stream_at tiny_file 40) (Suc 0) buf = (''a'' @ drop (Suc 0) buf, stream_at tiny_file 41)" for buf
    using fin_read_at [of 40 tiny_file "''a''" _ "Suc 0" buf] by (simp add: tiny_file_def length_bytes_of_i32)
  have n: "nat (n_vocab tiny_hparams) = Suc 0" by (simp add: tiny_hparams_def)
  show ?thesis unfolding n by (simp add: l w resize_def Let_def)
qed

lemma tiny_record:
  "drop 41 tiny_file = record_bytes [1] ''transformer.ln_f.bias'' 0 @ ''ABCD'' @ []"
  by (simp add: tiny_file_def length_bytes_of_i32)

text \<open>
  Claim C8. For a tensor record at position \<open>p\<close> of the file, followed by its payload:
  if the name is not in \<open>model.tensors\<close>, or the element count, one of the first two
  extents, or the byte size computed from the record's type and the tensor's block size
  differs from the tensor found under the name, the loop over the records stops with
  \<open>false\<close> and the model as it was. Otherwise the payload is copied into the tensor's
  data and the loop goes on behind the payload with that tensor replaced. At the end of
  the file the loop stops with \<open>true\<close>. \<open>gptj_model_load\<close>, once it has read the header and
  the vocabulary and made the tensors, returns what the loop returns, with the model the
  loop leaves.
\<close>

theorem tensor_record_checks:
  assumes at: "drop p B = record_bytes dims name ttype @ payload @ rest"
    and dims: "length dims \<le> 2" "\<forall>d \<in> set dims. in_int32 d" "in_int32 (extent dims 0 * extent dims 1)"
    and name: "length name < 2 ^ 31" "CHR 0x00 \<notin> set name"
    and ty: "in_int32 ttype" "ggml_type_of g ttype = Some ty"
    and blck: "\<forall>t. ggml_blck_size g t \<noteq> 0"
  shows "(tensors m name = None \<longrightarrow>
            (\<exists>fin'. load_weights g (stream_at B p) m = (Returned False, fin', m))) \<and>
         (\<forall>t. tensors m name = Some t \<and> record_mismatch g t dims ty \<longrightarrow>
            (\<exists>fin'. load_weights g (stream_at B p) m = (Returned False, fin', m))) \<and>
         (\<forall>t. tensors m name = Some t \<and> \<not> record_mismatch g t dims ty \<and> length payload = ggml_nbytes g t \<longrightarrow>
            load_weights g (stream_at B p) m =
              load_weights g (stream_at B (p + length (record_bytes dims name ttype) + length payload))
                (m\<lparr>tensors := (tensors m)(name \<mapsto>
                     t\<lparr>tensor_data := payload @ drop (length payload) (tensor_data t)\<rparr>)\<rparr>)) \<and>
         (\<forall>B' q m'. length B' \<le> q \<longrightarrow>
            load_weights g (stream_at B' q) m' = (Returned True, (stream_at B' q)\<lparr>file_failed := True\<rparr>, m')) \<and>
         (\<forall>fs fname m0 v0 bytes fin1 hp fin2 fin3 v1.
            fs fname = Some bytes \<and>
            read_u32 (stream_at bytes 0) = (Some 0x67676d6c, fin1) \<and>
            read_hparams fin1 (hparams m0) = (hp, fin2) \<and>
            read_i32_into fin2 0 = (n_vocab hp, fin3) \<and>
            read_vocab (nat (n_vocab hp)) 0 fin3 [] v0 = Inr (v1, stream_at B p) \<and>
            ggml_ftype_to_ggml_type (ftype hp) \<noteq> GGML_TYPE_COUNT \<and>
            ggml_init_ok g (ctx_size_of g hp (ggml_ftype_to_ggml_type (ftype hp))) \<and>
            0 \<le> n_layer hp \<and>
            m = prepare_tensors g (ggml_ftype_to_ggml_type (ftype hp))
                  (m0\<lparr>hparams := hp, ctx := Some (ctx_size_of g hp (ggml_ftype_to_ggml_type (ftype hp)))\<rparr>) \<longrightarrow>
            gptj_model_load g fs fname m0 v0 =
              (fst (load_weights g (stream_at B p) m), snd (snd (load_weights g (stream_at B p) m)), v1))"
proof -
  note rec = load_record_at [OF assms, of m]
  let ?p' = "p + length (record_bytes dims name ttype)"
  have after: "drop ?p' B = payload @ rest" by (rule drop_after [OF at refl])
  have 1: "tensors m name = None \<longrightarrow>
            (\<exists>fin'. load_weights g (stream_at B p) m = (Returned False, fin', m))"
    using rec by (auto simp: load_weights.simps [of g "stream_at B p" m])
  have 2: "\<forall>t. tensors m name = Some t \<and> record_mismatch g t dims ty \<longrightarrow>
            (\<exists>fin'. load_weights g (stream_at B p) m = (Returned False, fin', m))"
    using rec by (auto simp: load_weights.simps [of g "stream_at B p" m])
  have 3: "\<forall>t. tensors m name = Some t \<and> \<not> record_mismatch g t dims ty \<and> length payload = ggml_nbytes g t \<longrightarrow>
            load_weights g (stream_at B p) m =
              load_weights g (stream_at B (?p' + length payload))
                (m\<lparr>tensors := (tensors m)(name \<mapsto>
                     t\<lparr>tensor_data := payload @ drop (length payload) (tensor_data t)\<rparr>)\<rparr>)"
  proof (intro allI impI)
    fix t
    assume a: "tensors m name = Some t \<and> \<not> record_mismatch g t dims ty \<and> length payload = ggml_nbytes g t"
    then have "fin_read (stream_at B ?p') (ggml_nbytes g t) (tensor_data t)
               = (payload @ drop (length payload) (tensor_data t), stream_at B (?p' + length payload))"
      using fin_read_at [OF after, of "length payload" "tensor_data t"] by simp
    with a rec show "load_weights g (stream_at B p) m =
              load_weights g (stream_at B (?p' + length payload))
                (m\<lparr>tensors := (tensors m)(name \<mapsto>
                     t\<lparr>tensor_data := payload @ drop (length payload) (tensor_data t)\<rparr>)\<rparr>)"
      by (simp add: load_weights.simps [of g "stream_at B p" m])
  qed
  have 5: "gptj_model_load g fs fname m0 v0 =
              (fst (load_weights g (stream_at B p) m), snd (snd (load_weights g (stream_at B p) m)), v1)"
    if "fs fname = Some bytes \<and>
            read_u32 (stream_at bytes 0) = (Some 0x67676d6c, fin1) \<and>
            read_hparams fin1 (hparams m0) = (hp, fin2) \<and>
            read_i32_into fin2 0 = (n_vocab hp, fin3) \<and>
            read_vocab (nat (n_vocab hp)) 0 fin3 [] v0 = Inr (v1, stream_at B p) \<and>
            ggml_ftype_to_ggml_type (ftype hp) \<noteq> GGML_TYPE_COUNT \<and>
            ggml_init_ok g (ctx_size_of g hp (ggml_ftype_to_ggml_type (ftype hp))) \<and>
            0 \<le> n_layer hp \<and>
            m = prepare_tensors g (ggml_ftype_to_ggml_type (ftype hp))
                  (m0\<lparr>hparams := hp, ctx := Some (ctx_size_of g hp (ggml_ftype_to_ggml_type (ftype hp)))\<rparr>)"
    for fs fname m0 v0 bytes fin1 hp fin2 fin3 v1
    using that model_load_weights [of fs fname bytes fin1 m0 hp fin2 fin3 v0 v1 "stream_at B p"
        "ggml_ftype_to_ggml_type (ftype hp)" g]
    by simp
  from 1 2 3 load_weights_eof 5 show ?thesis by blast
qed

theorem tensor_record_checks_witness:
  "drop 41 tiny_file = record_bytes [1] ''transformer.ln_f.bias'' 0 @ ''ABCD'' @ [] \<and>
   tiny_fs ''tiny.bin'' = Some tiny_file \<and>
   ggml_type_of demo_ggml 0 = Some GGML_TYPE_F32 \<and>
   tensors tiny_model ''transformer.ln_f.bias'' = Some (ggml_new_tensor_1d demo_ggml GGML_TYPE_F32 1) \<and>
   \<not> record_mismatch demo_ggml (ggml_new_tensor_1d demo_ggml GGML_TYPE_F32 1) [1] GGML_TYPE_F32 \<and>
   fst (gptj_model_load demo_ggml tiny_fs ''tiny.bin'' (model new_model_context) (vocab new_model_context))
     = Returned True \<and>
   map_option tensor_data
     (tensors (fst (snd (gptj_model_load demo_ggml tiny_fs ''tiny.bin'' (model new_model_context)
                           (vocab new_model_context)))) ''transformer.ln_f.bias'') = Some ''ABCD''"
proof -
  let ?name = "''transformer.ln_f.bias''"
  let ?t = "ggml_new_tensor_1d demo_ggml GGML_TYPE_F32 1"
  let ?m' = "tiny_model\<lparr>tensors := (tensors tiny_model)(?name \<mapsto>
               ?t\<lparr>tensor_data := ''ABCD'' @ drop (length ''ABCD'') (tensor_data ?t)\<rparr>)\<rparr>"
  let ?v1 = "\<lparr>token_to_id = [''a'' \<mapsto> 0], id_to_token = [0 \<mapsto> ''a'']\<rparr>"
  have d: "length [1 :: int] \<le> 2" "\<forall>d \<in> set [1 :: int]. in_int32 d" "in_int32 (extent [1] 0 * extent [1] 1)"
    by (simp_all add: in_int32_def extent_def)
  have n: "length ?name < 2 ^ 31" "CHR 0x00 \<notin> set ?name" by simp_all
  have ty: "in_int32 0" "ggml_type_of demo_ggml 0 = Some GGML_TYPE_F32"
    by (simp_all add: in_int32_def demo_ggml_def)
  have b: "\<forall>t. ggml_blck_size demo_ggml t \<noteq> 0" by (simp add: demo_ggml_def)
  have fs: "tiny_fs ''tiny.bin'' = Some tiny_file" by (simp add: tiny_fs_def)
  have t: "tensors tiny_model ?name = Some ?t"
    by (simp add: tiny_model_def prepare_tensors_def Let_def put_all_def tiny_hparams_def)
  have mm: "\<not> record_mismatch demo_ggml ?t [1] GGML_TYPE_F32"
    by (simp add: record_mismatch_def demo_ggml_def ggml_new_tensor_1d_def ggml_new_tensor_2d_def
          extent_def size_t_def Let_def)
  have nb: "length ''ABCD'' = ggml_nbytes demo_ggml ?t"
    by (simp add: demo_ggml_def ggml_new_tensor_1d_def ggml_new_tensor_2d_def Let_def)
  have pos: "41 + length (record_bytes [1] ?name 0) + length ''ABCD'' = 82"
    by (simp add: record_bytes_def length_bytes_of_i32)
  have wt: "ggml_ftype_to_ggml_type (ftype tiny_hparams) = GGML_TYPE_F32"
    by (simp add: tiny_hparams_def ggml_ftype_to_ggml_type_def)
  have ini: "ggml_init_ok demo_ggml (ctx_size_of demo_ggml tiny_hparams GGML_TYPE_F32)"
    by (simp add: demo_ggml_def)
  have nl: "0 \<le> n_layer tiny_hparams" by (simp add: tiny_hparams_def)
  have hp0: "hparams (model new_model_context) = default_hparams"
    and v0: "vocab new_model_context = \<lparr>token_to_id = Map.empty, id_to_token = Map.empty\<rparr>"
    by (simp_all add: new_model_context_def)
  note th = tensor_record_checks [OF tiny_record d n ty b, of tiny_model]
  note th3 = th [THEN conjunct2, THEN conjunct2, THEN conjunct1, rule_format]
  note th4 = th [THEN conjunct2, THEN conjunct2, THEN conjunct2, THEN conjunct1, rule_format]
  note th5 = th [THEN conjunct2, THEN conjunct2, THEN conjunct2, THEN conjunct2, rule_format]
  have c: "tensors tiny_model ?name = Some ?t \<and> \<not> record_mismatch demo_ggml ?t [1] GGML_TYPE_F32 \<and>
           length ''ABCD'' = ggml_nbytes demo_ggml ?t"
    by (intro conjI t mm nb)
  have e: "length tiny_file \<le> 82" by (simp add: tiny_len)
  have L: "load_weights demo_ggml (stream_at tiny_file 41) tiny_model =
      (Returned True, (stream_at tiny_file 82)\<lparr>file_failed := True\<rparr>, ?m')"
    unfolding th3 [OF c] pos by (rule th4 [OF e])
  have h: "tiny_fs ''tiny.bin'' = Some tiny_file \<and>
            read_u32 (stream_at tiny_file 0) = (Some 0x67676d6c, stream_at tiny_file 4) \<and>
            read_hparams (stream_at tiny_file 4) (hparams (model new_model_context)) = (tiny_hparams, stream_at tiny_file 32) \<and>
            read_i32_into (stream_at tiny_file 32) 0 = (n_vocab tiny_hparams, stream_at tiny_file 36) \<and>
            read_vocab (nat (n_vocab tiny_hparams)) 0 (stream_at tiny_file 36) [] (vocab new_model_context)
              = Inr (?v1, stream_at tiny_file 41) \<and>
            ggml_ftype_to_ggml_type (ftype tiny_hparams) \<noteq> GGML_TYPE_COUNT \<and>
            ggml_init_ok demo_ggml (ctx_size_of demo_ggml tiny_hparams (ggml_ftype_to_ggml_type (ftype tiny_hparams))) \<and>
            0 \<le> n_layer tiny_hparams \<and>
            tiny_model = prepare_tensors demo_ggml (ggml_ftype_to_ggml_type (ftype tiny_hparams))
                  ((model new_model_context)\<lparr>hparams := tiny_hparams,
                     ctx := Some (ctx_size_of demo_ggml tiny_hparams (ggml_ftype_to_ggml_type (ftype tiny_hparams)))\<rparr>)"
    unfolding wt hp0 v0
    by (intro conjI fs tiny_magic tiny_hp tiny_count tiny_vocab ini nl tiny_model_def) simp
  have G: "gptj_model_load demo_ggml tiny_fs ''tiny.bin'' (model new_model_context) (vocab new_model_context) =
       (Returned True, ?m', ?v1)"
    unfolding th5 [where fs = tiny_fs and fname = "''tiny.bin''", OF h] L by simp
  have r: "map_option tensor_data (tensors ?m' ?name) = Some ''ABCD''"
    by (simp add: ggml_new_tensor_1d_def ggml_new_tensor_2d_def demo_ggml_def Let_def)
  show ?thesis
    unfolding G fst_conv snd_conv
    by (intro conjI tiny_record fs ty(2) t mm r refl)
qed

section \<open>Properties of the sampler and the driver\<close>

lemma gptj_eval_nonempty:
  "embd_inp \<noteq> [] \<Longrightarrow> \<exists>ok lg mpt bs. gptj_eval ext gc m hist p embd_inp w mp b = Inr (ok, lg, mpt, bs)"
  by (auto simp: gptj_eval_def Let_def)

lemma predict_fields:
  assumes "predict ext gc m st = Inr st1 \<or> predict ext gc m st = Inl (out, st1)"
  shows "g_trace st1 = g_trace st @ (if g_embd st = [] then [] else [Eval (g_n_past st) (g_embd st)])
       \<and> g_i st1 = g_i st \<and> g_vocab st1 = g_vocab st \<and> g_processing_input st1 = g_processing_input st"
proof (cases "g_embd st = []")
  case True
  with assms show ?thesis by (auto simp: predict_def)
next
  case False
  from gptj_eval_nonempty [OF False] obtain ok lg mpt bs where
    "gptj_eval ext gc m (eval_calls (g_trace st)) (g_n_past st) (g_embd st) (g_logits st) (g_mem_per_token st) (g_buf_size st) = Inr (ok, lg, mpt, bs)"
    by blast
  with assms False show ?thesis by (auto simp: predict_def Let_def split: if_splits)
qed

lemma predict_Inr:
  assumes "predict ext gc m st = Inr st1"
  shows "g_n_past st1 = g_n_past st + length (g_embd st) \<and> g_embd st1 = []"
  using assms by (auto simp: predict_def Let_def split: if_splits sum.splits prod.splits)

lemma predict_Inl:
  assumes "predict ext gc m st = Inl (out, st1)"
  shows "g_embd st \<noteq> [] \<and> out = Returned False"
proof (cases "g_embd st = []")
  case True
  with assms show ?thesis by (auto simp: predict_def)
next
  case False
  from gptj_eval_nonempty [OF False] obtain ok lg mpt bs where
    "gptj_eval ext gc m (eval_calls (g_trace st)) (g_n_past st) (g_embd st) (g_logits st) (g_mem_per_token st) (g_buf_size st) = Inr (ok, lg, mpt, bs)"
    by blast
  with assms False show ?thesis by (auto simp: predict_def Let_def split: if_splits)
qed

lemma next_tokens_sample:
  assumes "next_tokens ext m params embd_inp st = Inr st2" and "length embd_inp \<le> g_i st"
  shows "\<exists>tid. g_trace st2 = g_trace st @ [Sample (g_n_past st) tid] \<and> g_embd st2 = [tid]
         \<and> g_i st2 = g_i st \<and> g_n_past st2 = g_n_past st \<and> \<not> g_processing_input st2 \<and> g_vocab st2 = g_vocab st"
  using assms unfolding next_tokens_def
  by (auto split: if_splits sum.splits prod.splits)

lemma next_tokens_prompt:
  assumes "next_tokens ext m params embd_inp st = Inr st2" and "g_i st < length embd_inp"
  shows "g_trace st2 = g_trace st \<and> g_embd st2 = fill_embd embd_inp (n_batch params) (g_i st) (g_embd st)
         \<and> g_i st2 = g_i st + (length (g_embd st2) - 1) \<and> g_n_past st2 = g_n_past st
         \<and> g_processing_input st2 = g_processing_input st \<and> g_vocab st2 = g_vocab st"
  using assms unfolding next_tokens_def Let_def
  by (auto split: if_splits)

lemma emit_tokens_trace:
  "emit_tokens cb ids v tr = (r, v', tr') \<Longrightarrow> \<exists>cbs. tr' = tr @ cbs \<and> (\<forall>e \<in> set cbs. is_callback e)"
proof (induction ids arbitrary: v tr)
  case Nil
  then show ?case by simp
next
  case (Cons tid ids)
  show ?case
  proof (cases "tid = 50256")
    case True
    with Cons.prems show ?thesis by simp
  next
    case False
    let ?token = "case id_to_token v tid of Some s \<Rightarrow> s | None \<Rightarrow> []"
    let ?v = "v\<lparr>id_to_token := (id_to_token v)(tid \<mapsto> ?token)\<rparr>"
    let ?tr = "tr @ [Callback (c_str ?token)]"
    show ?thesis
    proof (cases "cb (callback_args tr) (c_str ?token)")
      case True
      with False Cons.prems have "emit_tokens cb ids ?v ?tr = (r, v', tr')" by (simp add: Let_def)
      from Cons.IH [OF this] obtain cbs where "tr' = ?tr @ cbs" "\<forall>e \<in> set cbs. is_callback e" by blast
      then have "tr' = tr @ (Callback (c_str ?token) # cbs) \<and> (\<forall>e \<in> set (Callback (c_str ?token) # cbs). is_callback e)"
        by (simp add: is_callback_def)
      then show ?thesis by blast
    next
      case no: False
      with False Cons.prems have "tr' = tr @ [Callback (c_str ?token)]" by (simp add: Let_def)
      then have "tr' = tr @ [Callback (c_str ?token)] \<and> (\<forall>e \<in> set [Callback (c_str ?token)]. is_callback e)"
        by (simp add: is_callback_def)
      then show ?thesis by blast
    qed
  qed
qed

lemma finish_fields:
  assumes "finish cb st = Inr st3 \<or> finish cb st = Inl (out, st3)"
  shows "(\<exists>cbs. g_trace st3 = g_trace st @ cbs \<and> (\<forall>e \<in> set cbs. is_callback e) \<and> (g_processing_input st \<longrightarrow> cbs = []))
       \<and> g_n_past st3 = g_n_past st \<and> g_embd st3 = g_embd st \<and> g_processing_input st3 = g_processing_input st"
proof (cases "g_processing_input st")
  case True
  with assms show ?thesis
    by (auto simp: finish_def Let_def split: if_splits)
next
  case False
  obtain r v' tr' where e: "emit_tokens cb (g_embd st) (g_vocab st) (g_trace st) = (r, v', tr')"
    by (cases "emit_tokens cb (g_embd st) (g_vocab st) (g_trace st)") auto
  from emit_tokens_trace [OF e] obtain cbs where c: "tr' = g_trace st @ cbs" "\<forall>e \<in> set cbs. is_callback e"
    by blast
  from assms False e have "g_trace st3 = tr' \<and> g_n_past st3 = g_n_past st \<and> g_embd st3 = g_embd st
      \<and> g_processing_input st3 = g_processing_input st"
    by (auto simp: finish_def Let_def split: if_splits)
  with c False show ?thesis by auto
qed

lemma eval_calls_append: "eval_calls (a @ b) = eval_calls a @ eval_calls b"
  by (simp add: eval_calls_def)

lemma fed_append: "fed (a @ b) = fed a + fed b"
  by (simp add: fed_def eval_calls_append)

lemma eval_calls_callbacks: "\<forall>e \<in> set cbs. is_callback e \<Longrightarrow> eval_calls cbs = []"
  by (induction cbs) (auto simp: eval_calls_def is_callback_def split: event.splits)

lemma callbacks_no_sample: "\<forall>e \<in> set cbs. is_callback e \<Longrightarrow> \<forall>e \<in> set cbs. \<not> is_sample e"
  by (auto simp: is_callback_def is_sample_def split: event.splits)

lemma first_sample_none: "\<forall>e \<in> set tr. \<not> is_sample e \<Longrightarrow> first_sample_pos tr = None \<and> prefill_events tr = tr"
proof -
  assume a: "\<forall>e \<in> set tr. \<not> is_sample e"
  then have d: "dropWhile (\<lambda>e. \<not> is_sample e) tr = []" by simp
  from a have t: "takeWhile (\<lambda>e. \<not> is_sample e) tr = tr" by simp
  show ?thesis unfolding first_sample_pos_def prefill_events_def d t by simp
qed

lemma first_sample_found:
  "\<forall>e \<in> set pre. \<not> is_sample e \<Longrightarrow>
   first_sample_pos (pre @ Sample p t # post) = Some p \<and> prefill_events (pre @ Sample p t # post) = pre"
  by (simp add: first_sample_pos_def prefill_events_def dropWhile_append3 takeWhile_tail is_sample_def)

lemma fill_embd_shape:
  "\<exists>n. fill_embd xs nb k acc = acc @ take n (drop k xs) \<and> (k < length xs \<longrightarrow> 1 \<le> n) \<and> n \<le> length xs - k"
proof (induction xs nb k acc rule: fill_embd.induct)
  case (1 embd_inp batch k embd)
  show ?case
  proof (cases "k < length embd_inp")
    case False
    then have "fill_embd embd_inp batch k embd = embd @ take 0 (drop k embd_inp)"
      by (simp add: fill_embd.simps [of embd_inp batch k embd])
    with False show ?thesis by (intro exI [of _ 0]) simp
  next
    case True
    then have one: "take (Suc 0) (drop k embd_inp) = [embd_inp ! k]"
      by (simp add: take_Suc_conv_app_nth [of 0] hd_drop_conv_nth take_Suc)
    show ?thesis
    proof (cases "size_t batch < length (embd @ [embd_inp ! k])")
      case stop: True
      with True have "fill_embd embd_inp batch k embd = embd @ take 1 (drop k embd_inp)"
        by (simp add: fill_embd.simps [of embd_inp batch k embd] one)
      with True show ?thesis by (intro exI [of _ 1]) simp
    next
      case go: False
      from "1.IH" [OF True go] obtain n where
        n: "fill_embd embd_inp batch (k + 1) (embd @ [embd_inp ! k]) = (embd @ [embd_inp ! k]) @ take n (drop (k + 1) embd_inp)"
           "n \<le> length embd_inp - (k + 1)"
        by blast
      have "take (Suc n) (drop k embd_inp) = embd_inp ! k # take n (drop (Suc k) embd_inp)"
        using True by (simp add: Cons_nth_drop_Suc [symmetric])
      with n True go have "fill_embd embd_inp batch k embd = embd @ take (Suc n) (drop k embd_inp)"
        by (simp add: fill_embd.simps [of embd_inp batch k embd])
      with n(2) True show ?thesis by (intro exI [of _ "Suc n"]) simp
    qed
  qed
qed

lemma gen_step_trace:
  assumes "gen_step ext gc m params embd_inp cb st = Inr st' \<or> gen_step ext gc m params embd_inp cb st = Inl (out, st')"
  shows "\<exists>more. g_trace st' = g_trace st @ more"
proof (cases "predict ext gc m st")
  case (Inl r)
  with assms have "predict ext gc m st = Inl (out, st')" by (auto simp: gen_step_def)
  with predict_fields [of ext gc m st st' out] show ?thesis by auto
next
  case (Inr st1)
  from predict_fields [of ext gc m st st1] Inr have t1: "\<exists>more. g_trace st1 = g_trace st @ more" by auto
  show ?thesis
  proof (cases "next_tokens ext m params embd_inp st1")
    case (Inl f)
    with Inr assms have "st' = st1" by (auto simp: gen_step_def)
    with t1 show ?thesis by simp
  next
    case st2: (Inr st2)
    have t2: "\<exists>more. g_trace st2 = g_trace st1 @ more"
    proof (cases "length embd_inp \<le> g_i st1")
      case True
      from next_tokens_sample [OF st2 True] show ?thesis by auto
    next
      case False
      with next_tokens_prompt [OF st2] show ?thesis by auto
    qed
    from Inr st2 assms have "finish cb st2 = Inr st' \<or> finish cb st2 = Inl (out, st')"
      by (auto simp: gen_step_def)
    from finish_fields [OF this] obtain cbs where "g_trace st' = g_trace st2 @ cbs" by blast
    with t1 t2 show ?thesis by auto
  qed
qed

lemma gen_loop_trace:
  "gen_loop ext gc m params embd_inp cb bound st = (out, st') \<Longrightarrow> \<exists>more. g_trace st' = g_trace st @ more"
proof (induction ext gc m params embd_inp cb bound st rule: gen_loop.induct)
  case (1 ext gc m params embd_inp cb bound st)
  show ?case
  proof (cases "g_i st < bound")
    case False
    with "1.prems" show ?thesis by (simp add: gen_loop.simps [of _ _ _ _ _ _ bound st])
  next
    case True
    show ?thesis
    proof (cases "gen_step ext gc m params embd_inp cb st")
      case (Inl r)
      with True "1.prems" have "gen_step ext gc m params embd_inp cb st = Inl (out, st')"
        by (simp add: gen_loop.simps [of _ _ _ _ _ _ bound st])
      with gen_step_trace show ?thesis by blast
    next
      case (Inr st1)
      with True "1.prems" have "gen_loop ext gc m params embd_inp cb bound st1 = (out, st')"
        by (simp add: gen_loop.simps [of _ _ _ _ _ _ bound st])
      from "1.IH" [OF True Inr this] obtain more where "g_trace st' = g_trace st1 @ more" by blast
      moreover from gen_step_trace [of ext gc m params embd_inp cb st st1] Inr
      obtain more1 where "g_trace st1 = g_trace st @ more1" by blast
      ultimately show ?thesis by simp
    qed
  qed
qed

lemma fed_eval: "fed (if b = [] then [] else [Eval p b]) = length b"
  by (simp add: fed_def eval_calls_def)

lemma eval_no_sample: "\<forall>e \<in> set (if b = [] then [] else [Eval p b]). \<not> is_sample e"
  by (simp add: is_sample_def)

lemma gen_step_prefill:
  assumes inv: "prefill_inv (length embd_inp) c st"
  shows "(\<exists>st'. gen_step ext gc m params embd_inp cb st = Inr st' \<and> prefill_inv (length embd_inp) c st')
       \<or> (\<exists>st' out. (gen_step ext gc m params embd_inp cb st = Inr st' \<or>
                      gen_step ext gc m params embd_inp cb st = Inl (out, st')) \<and>
                     sampled_at (length embd_inp) c (g_trace st'))
       \<or> (\<exists>st' out. gen_step ext gc m params embd_inp cb st = Inl (out, st') \<and>
                     (\<forall>e \<in> set (g_trace st'). \<not> is_sample e))"
proof (cases "predict ext gc m st")
  case (Inl r)
  obtain out st1 where r: "r = (out, st1)" by (cases r) auto
  from predict_fields [of ext gc m st st1 out] Inl r inv eval_no_sample [of "g_embd st" "g_n_past st"]
  have "\<forall>e \<in> set (g_trace st1). \<not> is_sample e" by (auto simp: prefill_inv_def)
  moreover from Inl r have "gen_step ext gc m params embd_inp cb st = Inl (out, st1)"
    by (simp add: gen_step_def)
  ultimately show ?thesis by blast
next
  case (Inr st1)
  from predict_fields [of ext gc m st st1] predict_Inr [OF Inr] Inr
  have f1: "g_trace st1 = g_trace st @ (if g_embd st = [] then [] else [Eval (g_n_past st) (g_embd st)])"
    "g_i st1 = g_i st" "g_processing_input st1 = g_processing_input st"
    "g_n_past st1 = g_n_past st + length (g_embd st)" "g_embd st1 = []"
    by auto
  from inv f1 eval_no_sample [of "g_embd st" "g_n_past st"]
  have ns1: "\<forall>e \<in> set (g_trace st1). \<not> is_sample e" by (auto simp: prefill_inv_def)
  from inv f1 have np1: "g_n_past st1 = g_i st1" and le1: "g_i st1 \<le> length embd_inp" and pi1: "g_processing_input st1"
    by (auto simp: prefill_inv_def)
  from inv f1 have fed1: "fed (g_trace st1) = c + g_n_past st1"
    by (simp add: prefill_inv_def fed_append fed_eval)
  show ?thesis
  proof (cases "next_tokens ext m params embd_inp st1")
    case (Inl f)
    with Inr have "gen_step ext gc m params embd_inp cb st = Inl (Crashed f, st1)"
      by (simp add: gen_step_def)
    with ns1 show ?thesis by blast
  next
    case st2: (Inr st2)
    from Inr st2 have gs: "gen_step ext gc m params embd_inp cb st = finish cb st2"
      by (simp add: gen_step_def)
    show ?thesis
    proof (cases "length embd_inp \<le> g_i st1")
      case True
      with le1 np1 have eq: "g_n_past st1 = length embd_inp" by simp
      from next_tokens_sample [OF st2 True] eq obtain tid where
        t2: "g_trace st2 = g_trace st1 @ [Sample (length embd_inp) tid]" by auto
      obtain st3 out where st3: "finish cb st2 = Inr st3 \<or> finish cb st2 = Inl (out, st3)"
        by (cases "finish cb st2") auto
      from finish_fields [OF st3] obtain cbs where "g_trace st3 = g_trace st2 @ cbs" by blast
      with t2 have "g_trace st3 = g_trace st1 @ Sample (length embd_inp) tid # cbs" by simp
      moreover from fed1 eq have "fed (g_trace st1) = c + length embd_inp" by simp
      ultimately have "sampled_at (length embd_inp) c (g_trace st3)"
        unfolding sampled_at_def using ns1 by (intro exI [of _ "g_trace st1"] exI [of _ tid] exI [of _ cbs]) simp
      with st3 gs show ?thesis by auto
    next
      case False
      then have lt: "g_i st1 < length embd_inp" by simp
      from next_tokens_prompt [OF st2 lt] f1
      have f2: "g_trace st2 = g_trace st1" "g_embd st2 = fill_embd embd_inp (n_batch params) (g_i st1) []"
        "g_i st2 = g_i st1 + (length (g_embd st2) - 1)" "g_n_past st2 = g_n_past st1"
        "g_processing_input st2 = g_processing_input st1"
        by auto
      from fill_embd_shape [of embd_inp "n_batch params" "g_i st1" "[]"] lt f2(2)
      have len: "1 \<le> length (g_embd st2)" "length (g_embd st2) \<le> length embd_inp - g_i st1"
        by auto
      show ?thesis
      proof (cases "finish cb st2")
        case (Inl r)
        obtain out st3 where r: "r = (out, st3)" by (cases r) auto
        from finish_fields [of cb st2 st3 out] Inl r pi1 f2 have "g_trace st3 = g_trace st1" by auto
        with ns1 gs Inl r show ?thesis by auto
      next
        case (Inr st3)
        from finish_fields [of cb st2 st3] Inr pi1 f2
        have f3: "g_trace st3 = g_trace st1" "g_n_past st3 = g_n_past st1" "g_embd st3 = g_embd st2"
          "g_processing_input st3" by auto
        from finish_i [OF Inr] f2 have "g_i st3 = g_i st1 + (length (g_embd st2) - 1) + 1" by simp
        with len lt have i3: "g_i st3 = g_i st1 + length (g_embd st2)" "g_i st3 \<le> length embd_inp"
          by arith+
        from f3 i3 np1 ns1 fed1 have "prefill_inv (length embd_inp) c st3"
          by (simp add: prefill_inv_def)
        with gs Inr show ?thesis by auto
      qed
    qed
  qed
qed

lemma sampled_at_append: "sampled_at P c tr \<Longrightarrow> sampled_at P c (tr @ extra)"
  unfolding sampled_at_def by (metis append_Cons append_assoc)

lemma gen_loop_prefill:
  "prefill_inv (length embd_inp) c st \<Longrightarrow> gen_loop ext gc m params embd_inp cb bound st = (out, st') \<Longrightarrow>
   sampled_at (length embd_inp) c (g_trace st') \<or> (\<forall>e \<in> set (g_trace st'). \<not> is_sample e)"
proof (induction ext gc m params embd_inp cb bound st rule: gen_loop.induct)
  case (1 ext gc m params embd_inp cb bound st)
  show ?case
  proof (cases "g_i st < bound")
    case False
    with "1.prems" have "st' = st" by (simp add: gen_loop.simps [of _ _ _ _ _ _ bound st])
    with "1.prems"(1) show ?thesis by (simp add: prefill_inv_def)
  next
    case True
    note loop = gen_loop.simps [of ext gc m params embd_inp cb bound st]
    from gen_step_prefill [OF "1.prems"(1), of ext gc m params cb]
    consider
      (a) st1 where "gen_step ext gc m params embd_inp cb st = Inr st1" "prefill_inv (length embd_inp) c st1"
    | (b) st1 out1 where "gen_step ext gc m params embd_inp cb st = Inr st1 \<or>
          gen_step ext gc m params embd_inp cb st = Inl (out1, st1)" "sampled_at (length embd_inp) c (g_trace st1)"
    | (c) st1 out1 where "gen_step ext gc m params embd_inp cb st = Inl (out1, st1)"
          "\<forall>e \<in> set (g_trace st1). \<not> is_sample e"
      by blast
    then show ?thesis
    proof cases
      case a
      with True "1.prems" have "gen_loop ext gc m params embd_inp cb bound st1 = (out, st')"
        by (simp add: loop)
      from "1.IH" [OF True a(1) a(2) this] show ?thesis .
    next
      case b
      show ?thesis
      proof (cases "gen_step ext gc m params embd_inp cb st")
        case (Inl r)
        with b True "1.prems" have "st' = st1" by (auto simp: loop)
        with b show ?thesis by simp
      next
        case (Inr st2)
        with b have eq: "st2 = st1" by auto
        with Inr True "1.prems" have "gen_loop ext gc m params embd_inp cb bound st1 = (out, st')"
          by (simp add: loop)
        from gen_loop_trace [OF this] obtain more where "g_trace st' = g_trace st1 @ more" by blast
        with b(2) sampled_at_append show ?thesis by metis
      qed
    next
      case c
      with True "1.prems" have "st' = st1" by (simp add: loop)
      with c show ?thesis by simp
    qed
  qed
qed

lemma gen_loop_done:
  "\<not> g_i st < bound \<Longrightarrow> gen_loop ext gc m params embd_inp cb bound st = (Returned True, st)"
  by (simp add: gen_loop.simps [of _ _ _ _ _ _ bound st])

lemma gen_loop_Inl:
  "gen_step ext gc m params embd_inp cb st = Inl r \<Longrightarrow> g_i st < bound \<Longrightarrow>
   gen_loop ext gc m params embd_inp cb bound st = r"
  by (simp add: gen_loop.simps [of _ _ _ _ _ _ bound st])

lemma gen_loop_Inr:
  "gen_step ext gc m params embd_inp cb st = Inr st' \<Longrightarrow> g_i st < bound \<Longrightarrow>
   gen_loop ext gc m params embd_inp cb bound st = gen_loop ext gc m params embd_inp cb bound st'"
  by (simp add: gen_loop.simps [of _ _ _ _ _ _ bound st])

lemma toy_tok: "gpt_tokenize toy_vocab (c_str ''hi there'') = [0, 1]"
  by code_simp

lemma toy_tok_empty: "gpt_tokenize toy_vocab (c_str []) = []"
  by code_simp

lemma toy_size: "card (dom (id_to_token toy_vocab)) = 3"
  by (simp add: toy_vocab_def dom_map_of_conv_image_fst)

lemma toy_sample: "gpt_sample_top_k_top_p demo_ext toy_vocab [0, 0, 1] 1 (9 / 10) 1 r = Inr (2, Suc r)"
  by (simp add: gpt_sample_top_k_top_p_def toy_size demo_ext_def sort_desc_def scaled_logits_def
        max_logit_def Let_def upt_rec)

lemma toy_eot: "id_to_token toy_vocab 2 = Some ''<eot>''"
  by (simp add: toy_vocab_def)

lemma toy_vocab_upd: "toy_vocab\<lparr>id_to_token := (id_to_token toy_vocab)(2 \<mapsto> ''<eot>'')\<rparr> = toy_vocab"
  by (simp add: toy_vocab_def fun_upd_idem)

lemma c_str_eot: "c_str ''<eot>'' = ''<eot>''"
  by (simp add: c_str_def)

lemma demo_ext_fields:
  "realloc_ok demo_ext n" "grow demo_ext n = 11 * n div 10" "ggml_used_mem demo_ext N = 1024 * N"
  "mt19937 demo_ext s = 0" "time_null demo_ext = 0"
  by (simp_all add: demo_ext_def)

lemmas toy_step = gen_step_def predict_def next_tokens_def finish_def fill_embd.simps
  gptj_eval_def toy_sample toy_eot toy_vocab_upd c_str_eot size_t_def INT_MAX_def Let_def
  eval_calls_def callback_args_def eot_graph_def toy_model_def toy_ctx_def greedy_def
  always_continue_def stop_at_fourth_def demo_ext_fields

lemma toy_start:
  "gptj_generate demo_ext eot_graph 268435456 (toy_ctx c) prompt (greedy np nb) cb =
     (if c - int (length (gpt_tokenize toy_vocab (c_str prompt))) < - (2 ^ 31)
      then (Crashed Undefined_Behaviour,
            \<lparr>g_i = 0, g_n_past = 0, g_embd = [], g_logits = [], g_mem_per_token = 0,
             g_buf_size = 268435456, g_rng = 0, g_processing_input = True, g_vocab = toy_vocab, g_trace = []\<rparr>)
      else gen_loop demo_ext eot_graph (toy_model c)
             (greedy (min np (c - int (length (gpt_tokenize toy_vocab (c_str prompt))))) nb)
             (gpt_tokenize toy_vocab (c_str prompt)) cb
             (size_t (int (length (gpt_tokenize toy_vocab (c_str prompt)))
                      + min np (c - int (length (gpt_tokenize toy_vocab (c_str prompt))))))
             (run_state 0 0 [] 0 True [Eval 0 [0, 1, 2, 3]]))"
  by (simp add: gptj_generate_def Let_def gptj_eval_def demo_ext_fields eot_graph_def toy_ctx_def
        toy_model_def greedy_def run_state_def)

lemma toy_run_3:
  "gptj_generate demo_ext eot_graph 268435456 (toy_ctx 8) ''hi there'' (greedy 3 8) always_continue
   = (Returned True,
      run_state 5 4 [2] 3 False
        [Eval 0 [0, 1, 2, 3], Eval 0 [0, 1], Sample 2 2, Callback ''<eot>'', Eval 2 [2], Sample 3 2,
         Callback ''<eot>'', Eval 3 [2], Sample 4 2, Callback ''<eot>''])"
proof -
  let ?step = "gen_step demo_ext eot_graph (toy_model 8) (greedy 3 8) [0, 1] always_continue"
  let ?loop = "gen_loop demo_ext eot_graph (toy_model 8) (greedy 3 8) [0, 1] always_continue 5"
  let ?s0 = "run_state 0 0 [] 0 True [Eval 0 [0, 1, 2, 3]]"
  let ?s1 = "run_state 2 0 [0, 1] 0 True [Eval 0 [0, 1, 2, 3]]"
  let ?s2 = "run_state 3 2 [2] 1 False [Eval 0 [0, 1, 2, 3], Eval 0 [0, 1], Sample 2 2, Callback ''<eot>'']"
  let ?s3 = "run_state 4 3 [2] 2 False [Eval 0 [0, 1, 2, 3], Eval 0 [0, 1], Sample 2 2, Callback ''<eot>'',
               Eval 2 [2], Sample 3 2, Callback ''<eot>'']"
  let ?s4 = "run_state 5 4 [2] 3 False [Eval 0 [0, 1, 2, 3], Eval 0 [0, 1], Sample 2 2, Callback ''<eot>'',
               Eval 2 [2], Sample 3 2, Callback ''<eot>'', Eval 3 [2], Sample 4 2, Callback ''<eot>'']"
  have 0: "?step ?s0 = Inr ?s1" by (simp add: toy_step run_state_def)
  have 1: "?step ?s1 = Inr ?s2" by (simp add: toy_step run_state_def)
  have 2: "?step ?s2 = Inr ?s3" by (simp add: toy_step run_state_def)
  have 3: "?step ?s3 = Inr ?s4" by (simp add: toy_step run_state_def)
  have "gptj_generate demo_ext eot_graph 268435456 (toy_ctx 8) ''hi there'' (greedy 3 8) always_continue
        = ?loop ?s0"
    by (simp add: toy_start toy_tok size_t_def)
  also have "\<dots> = ?loop ?s1" by (rule gen_loop_Inr [OF 0]) (simp add: run_state_def)
  also have "\<dots> = ?loop ?s2" by (rule gen_loop_Inr [OF 1]) (simp add: run_state_def)
  also have "\<dots> = ?loop ?s3" by (rule gen_loop_Inr [OF 2]) (simp add: run_state_def)
  also have "\<dots> = ?loop ?s4" by (rule gen_loop_Inr [OF 3]) (simp add: run_state_def)
  also have "\<dots> = (Returned True, ?s4)" by (rule gen_loop_done) (simp add: run_state_def)
  finally show ?thesis .
qed

lemma partial_sort_top:
  assumes "partial_sort_spec ps" and "xs \<noteq> []"
  shows "\<exists>a rest. ps 1 xs = a # rest \<and> a \<in> set xs \<and> (\<forall>b \<in> set xs. fst b \<le> fst a)"
proof -
  from assms(2) have "1 \<le> length xs" by (cases xs) auto
  with assms(1) have m: "mset (ps 1 xs) = mset xs"
    and d: "\<forall>a \<in> set (take 1 (ps 1 xs)). \<forall>b \<in> set (drop 1 (ps 1 xs)). fst b \<le> fst a"
    unfolding partial_sort_spec_def by blast+
  from m have s: "set (ps 1 xs) = set xs" by (rule mset_eq_setD)
  with assms(2) obtain a rest where ar: "ps 1 xs = a # rest" by (cases "ps 1 xs") auto
  with d have "\<forall>b \<in> set rest. fst b \<le> fst a" by simp
  with s ar have "\<forall>b \<in> set xs. fst b \<le> fst a" by auto
  moreover from s ar have "a \<in> set xs" by auto
  ultimately show ?thesis using ar by blast
qed

lemma sample_single:
  assumes "partial_sort ext 1 (scaled_logits logits (card (dom (id_to_token v))) tmp) = a # rest"
    and "discrete_distribution_spec (discrete_distribution ext)"
    and "tmp \<noteq> 0" and "1 \<le> card (dom (id_to_token v))" and "card (dom (id_to_token v)) \<le> length logits"
  shows "gpt_sample_top_k_top_p ext v logits 1 tp tmp rng
         = Inr (snd a, snd (discrete_distribution ext [1] rng))"
proof -
  from assms(2) have "fst (discrete_distribution ext [1] rng) < length [1::real]"
    unfolding discrete_distribution_spec_def by blast
  then have z: "fst (discrete_distribution ext [1] rng) = 0" by simp
  show ?thesis
  proof (cases "tp < 1")
    case True
    with assms z show ?thesis
      by (simp add: gpt_sample_top_k_top_p_def Let_def max_logit_def)
  next
    case False
    with assms z show ?thesis
      by (simp add: gpt_sample_top_k_top_p_def Let_def max_logit_def)
  qed
qed

lemma scaled_logits_set:
  "a \<in> set (scaled_logits logits n tmp) \<longleftrightarrow> (\<exists>i < n. a = (logits ! i * (1 / tmp), int i))"
  by (auto simp: scaled_logits_def)

lemma sample_top1:
  assumes ps: "partial_sort_spec (partial_sort ext)"
    and dd: "discrete_distribution_spec (discrete_distribution ext)"
    and tmp: "0 < tmp" and n1: "1 \<le> card (dom (id_to_token v))"
    and len: "card (dom (id_to_token v)) \<le> length logits"
  shows "\<exists>i < card (dom (id_to_token v)).
           gpt_sample_top_k_top_p ext v logits 1 tp tmp rng
             = Inr (int i, snd (discrete_distribution ext [1] rng)) \<and>
           (\<forall>j < card (dom (id_to_token v)). logits ! j \<le> logits ! i) \<and>
           take 1 (partial_sort ext 1 (scaled_logits logits (card (dom (id_to_token v))) tmp))
             = [(logits ! i * (1 / tmp), int i)]"
proof -
  let ?n = "card (dom (id_to_token v))"
  let ?xs = "scaled_logits logits ?n tmp"
  from n1 have "?xs \<noteq> []" by (auto simp: scaled_logits_def)
  from partial_sort_top [OF ps this] obtain a rest where
    ar: "partial_sort ext 1 ?xs = a # rest" "a \<in> set ?xs" "\<forall>b \<in> set ?xs. fst b \<le> fst a"
    by blast
  from ar(2) obtain i where i: "i < ?n" "a = (logits ! i * (1 / tmp), int i)"
    unfolding scaled_logits_set by blast
  have top: "take 1 (partial_sort ext 1 ?xs) = [a]" using ar(1) by simp
  from tmp have "tmp \<noteq> 0" by simp
  from sample_single [OF ar(1) dd this n1 len, of tp rng] i
  have res: "gpt_sample_top_k_top_p ext v logits 1 tp tmp rng
             = Inr (int i, snd (discrete_distribution ext [1] rng))" by simp
  have "\<forall>j < ?n. logits ! j \<le> logits ! i"
  proof (intro allI impI)
    fix j assume "j < ?n"
    then have "(logits ! j * (1 / tmp), int j) \<in> set ?xs" unfolding scaled_logits_set by blast
    with ar(3) i(2) have "logits ! j * (1 / tmp) \<le> logits ! i * (1 / tmp)" by auto
    with tmp show "logits ! j \<le> logits ! i" by (simp add: divide_le_cancel)
  qed
  with res i top show ?thesis by blast
qed



lemma sort_desc_spec: "partial_sort_spec sort_desc"
  unfolding partial_sort_spec_def
proof (intro allI impI conjI)
  fix k :: nat and xs :: "(real \<times> int) list"
  let ?f = "\<lambda>p :: real \<times> int. - fst p"
  let ?ys = "sort_key ?f xs"
  show "mset (sort_desc k xs) = mset xs" by (simp add: sort_desc_def)
  have s: "sorted (map ?f ?ys)" by (rule sorted_sort_key)
  have "map ?f ?ys = map ?f (take k ?ys) @ map ?f (drop k ?ys)"
    by (simp flip: map_append)
  with s have sa: "sorted (map ?f (take k ?ys) @ map ?f (drop k ?ys))" by simp
  then have "sorted (map ?f (take k ?ys))" by (simp add: sorted_append)
  then have "sorted_wrt (\<lambda>x y. fst y \<le> fst x) (take k ?ys)"
    by (simp add: sorted_map)
  then show "sorted (rev (map fst (take k (sort_desc k xs))))"
    by (simp add: sort_desc_def sorted_wrt_rev sorted_wrt_map flip: rev_map)
  from sa show "\<forall>a \<in> set (take k (sort_desc k xs)). \<forall>b \<in> set (drop k (sort_desc k xs)). fst b \<le> fst a"
    by (auto simp: sorted_append sort_desc_def)
qed

lemma demo_ext_specs:
  "partial_sort_spec (partial_sort demo_ext)" "discrete_distribution_spec (discrete_distribution demo_ext)"
  "partial_sort_stable (partial_sort demo_ext) 1"
  by (simp_all add: demo_ext_def sort_desc_spec discrete_distribution_spec_def partial_sort_stable_def sort_desc_def)




lemma eval_calls_simps:
  "eval_calls [] = []" "eval_calls (Eval p b # tr) = (p, b) # eval_calls tr"
  "eval_calls (Sample q t # tr) = eval_calls tr" "eval_calls (Callback c # tr) = eval_calls tr"
  by (simp_all add: eval_calls_def)

lemma callback_args_simps:
  "callback_args [] = []" "callback_args (Eval p b # tr) = callback_args tr"
  "callback_args (Sample q t # tr) = callback_args tr" "callback_args (Callback c # tr) = c # callback_args tr"
  by (simp_all add: callback_args_def)

lemma callback_args_append: "callback_args (a @ b) = callback_args a @ callback_args b"
  by (simp add: callback_args_def)

lemma gen_step_evals:
  assumes "gen_step ext gc m params embd_inp cb st = Inr st' \<or> gen_step ext gc m params embd_inp cb st = Inl (out, st')"
  shows "\<exists>extra. g_trace st' = g_trace st @ extra \<and>
           eval_calls extra = (if g_embd st = [] then [] else [(g_n_past st, g_embd st)])"
proof (cases "predict ext gc m st")
  case (Inl r)
  with assms have "predict ext gc m st = Inl (out, st')" by (auto simp: gen_step_def)
  with predict_fields [of ext gc m st st' out]
  have "g_trace st' = g_trace st @ (if g_embd st = [] then [] else [Eval (g_n_past st) (g_embd st)])" by auto
  then show ?thesis by (intro exI [of _ "if g_embd st = [] then [] else [Eval (g_n_past st) (g_embd st)]"])
      (simp add: eval_calls_simps)
next
  case (Inr st1)
  let ?E = "if g_embd st = [] then [] else [Eval (g_n_past st) (g_embd st)]"
  from predict_fields [of ext gc m st st1] Inr have t1: "g_trace st1 = g_trace st @ ?E" by auto
  have eE: "eval_calls ?E = (if g_embd st = [] then [] else [(g_n_past st, g_embd st)])"
    by (simp add: eval_calls_simps)
  show ?thesis
  proof (cases "next_tokens ext m params embd_inp st1")
    case (Inl f)
    with Inr assms have "st' = st1" by (auto simp: gen_step_def)
    with t1 eE show ?thesis by (intro exI [of _ ?E]) simp
  next
    case st2: (Inr st2)
    have "\<exists>S. g_trace st2 = g_trace st1 @ S \<and> eval_calls S = []"
    proof (cases "length embd_inp \<le> g_i st1")
      case True
      from next_tokens_sample [OF st2 True] obtain tid where
        "g_trace st2 = g_trace st1 @ [Sample (g_n_past st1) tid]" by auto
      then show ?thesis by (intro exI [of _ "[Sample (g_n_past st1) tid]"]) (simp add: eval_calls_simps)
    next
      case False
      with next_tokens_prompt [OF st2] have "g_trace st2 = g_trace st1 @ []" by auto
      then show ?thesis by (intro exI [of _ "[]"]) (simp add: eval_calls_simps)
    qed
    then obtain S where S: "g_trace st2 = g_trace st1 @ S" "eval_calls S = []" by blast
    from Inr st2 assms have "finish cb st2 = Inr st' \<or> finish cb st2 = Inl (out, st')"
      by (auto simp: gen_step_def)
    from finish_fields [OF this] obtain cbs where c: "g_trace st' = g_trace st2 @ cbs" "\<forall>e \<in> set cbs. is_callback e"
      by blast
    from c(2) have "eval_calls cbs = []" by (rule eval_calls_callbacks)
    with t1 S c(1) eE show ?thesis
      by (intro exI [of _ "?E @ S @ cbs"]) (simp add: eval_calls_append)
  qed
qed

lemma gen_step_n_past_keep:
  assumes "gen_step ext gc m params embd_inp cb st = Inr st'" and "g_embd st = []"
  shows "g_n_past st' = g_n_past st"
proof -
  from assms(1) obtain st1 st2 where
    1: "predict ext gc m st = Inr st1" and
    2: "next_tokens ext m params embd_inp st1 = Inr st2" and
    3: "finish cb st2 = Inr st'"
    by (auto simp: gen_step_def split: sum.splits)
  from predict_Inr [OF 1] assms(2) have "g_n_past st1 = g_n_past st" by simp
  moreover have "g_n_past st2 = g_n_past st1"
  proof (cases "length embd_inp \<le> g_i st1")
    case True
    from next_tokens_sample [OF 2 True] show ?thesis by auto
  next
    case False
    with next_tokens_prompt [OF 2] show ?thesis by auto
  qed
  moreover from finish_fields [of cb st2 st'] 3 have "g_n_past st' = g_n_past st2" by auto
  ultimately show ?thesis by simp
qed

lemma gen_loop_first_eval:
  "gen_loop ext gc m params embd_inp cb bound st = (out, st') \<Longrightarrow>
   \<exists>extra. g_trace st' = g_trace st @ extra \<and>
     (\<forall>p b later. eval_calls extra = (p, b) # later \<longrightarrow> p = g_n_past st)"
proof (induction ext gc m params embd_inp cb bound st rule: gen_loop.induct)
  case (1 ext gc m params embd_inp cb bound st)
  show ?case
  proof (cases "g_i st < bound")
    case False
    with "1.prems" have "g_trace st' = g_trace st @ []" by (simp add: gen_loop_done)
    then show ?thesis by (intro exI [of _ "[]"]) (simp add: eval_calls_simps)
  next
    case True
    show ?thesis
    proof (cases "gen_step ext gc m params embd_inp cb st")
      case (Inl r)
      with True "1.prems" have "gen_step ext gc m params embd_inp cb st = Inl (out, st')"
        by (simp add: gen_loop_Inl)
      with gen_step_evals [of ext gc m params embd_inp cb st st' out] obtain extra where
        "g_trace st' = g_trace st @ extra"
        "eval_calls extra = (if g_embd st = [] then [] else [(g_n_past st, g_embd st)])" by blast
      then show ?thesis by (intro exI [of _ extra]) auto
    next
      case (Inr st1)
      with True "1.prems" have "gen_loop ext gc m params embd_inp cb bound st1 = (out, st')"
        by (simp add: gen_loop_Inr)
      from "1.IH" [OF True Inr this] obtain e2 where
        e2: "g_trace st' = g_trace st1 @ e2" "\<forall>p b later. eval_calls e2 = (p, b) # later \<longrightarrow> p = g_n_past st1"
        by blast
      from gen_step_evals [of ext gc m params embd_inp cb st st1] Inr obtain e1 where
        e1: "g_trace st1 = g_trace st @ e1"
        "eval_calls e1 = (if g_embd st = [] then [] else [(g_n_past st, g_embd st)])" by blast
      show ?thesis
      proof (cases "g_embd st = []")
        case True
        with gen_step_n_past_keep [OF Inr] have "g_n_past st1 = g_n_past st" by simp
        with e1 e2 True show ?thesis
          by (intro exI [of _ "e1 @ e2"]) (simp add: eval_calls_append)
      next
        case False
        with e1 e2 show ?thesis
          by (intro exI [of _ "e1 @ e2"]) (simp add: eval_calls_append)
      qed
    qed
  qed
qed

lemma gptj_eval_mem_per_token:
  "gptj_eval ext gc m hist p b w mpt bsz = Inr (ok, lg, mpt', bsz') \<Longrightarrow>
   mpt' = (if mpt = 0 \<and> ok then ggml_used_mem ext (length b) div length b else mpt)"
  by (auto simp: gptj_eval_def Let_def split: if_splits)

lemma generate_unfold:
  assumes "- (2 ^ 31) \<le> n_ctx (hparams (model mc)) - int (length (gpt_tokenize (vocab mc) (c_str prompt)))"
  shows "\<exists>params' bound lg mpt bsz r.
           gptj_generate ext gc bs mc prompt params cb =
             gen_loop ext gc (model mc) params' (gpt_tokenize (vocab mc) (c_str prompt)) cb bound
               \<lparr>g_i = 0, g_n_past = 0, g_embd = [], g_logits = lg, g_mem_per_token = mpt,
                g_buf_size = bsz, g_rng = r, g_processing_input = True, g_vocab = vocab mc,
                g_trace = [Eval 0 [0, 1, 2, 3]]\<rparr>"
proof -
  obtain ok lg mpt bsz where
    "gptj_eval ext gc (model mc) [] 0 [0, 1, 2, 3] [] 0 bs = Inr (ok, lg, mpt, bsz)"
    using gptj_eval_nonempty [of "[0, 1, 2, 3]" ext gc "model mc" "[]" 0 "[]" 0 bs] by auto
  with assms show ?thesis
    by (simp add: gptj_generate_def Let_def) blast
qed

text \<open>
  Claim C4. In every run of \<open>gptj_generate\<close> that samples a token, whatever the prompt and
  the batch size, the cache position \<open>n_past\<close> at the first sample is the number of ids
  the prompt tokenizes to, and it is the sum of the sizes of the batches given to the
  evaluator after the warm-up call and before that sample.
\<close>

theorem n_past_after_prefill:
  assumes "first_sample_pos (g_trace (snd (gptj_generate ext gc bs mc prompt params cb))) = Some p"
  shows "p = length (gpt_tokenize (vocab mc) (c_str prompt)) \<and>
         fed (prefill_events (tl (g_trace (snd (gptj_generate ext gc bs mc prompt params cb))))) = p"
proof (cases "- (2 ^ 31) \<le> n_ctx (hparams (model mc)) - int (length (gpt_tokenize (vocab mc) (c_str prompt)))")
  case False
  then have "g_trace (snd (gptj_generate ext gc bs mc prompt params cb)) = []"
    by (simp add: gptj_generate_def Let_def)
  with assms show ?thesis by (simp add: first_sample_pos_def)
next
  case True
  let ?P = "length (gpt_tokenize (vocab mc) (c_str prompt))"
  let ?T = "g_trace (snd (gptj_generate ext gc bs mc prompt params cb))"
  from generate_unfold [OF True, of ext gc bs params cb] obtain params' bound lg mpt bsz r where
    g: "gptj_generate ext gc bs mc prompt params cb =
         gen_loop ext gc (model mc) params' (gpt_tokenize (vocab mc) (c_str prompt)) cb bound
           \<lparr>g_i = 0, g_n_past = 0, g_embd = [], g_logits = lg, g_mem_per_token = mpt,
            g_buf_size = bsz, g_rng = r, g_processing_input = True, g_vocab = vocab mc,
            g_trace = [Eval 0 [0, 1, 2, 3]]\<rparr>" (is "_ = gen_loop _ _ _ _ _ _ _ ?s0")
    by blast
  have inv: "prefill_inv ?P 4 ?s0"
    by (simp add: prefill_inv_def is_sample_def fed_def eval_calls_simps)
  obtain out st' where r: "gen_loop ext gc (model mc) params' (gpt_tokenize (vocab mc) (c_str prompt)) cb bound ?s0 = (out, st')"
    by (cases "gen_loop ext gc (model mc) params' (gpt_tokenize (vocab mc) (c_str prompt)) cb bound ?s0") auto
  with g have T: "?T = g_trace st'" by simp
  from gen_loop_trace [OF r] obtain extra where ex: "g_trace st' = Eval 0 [0, 1, 2, 3] # extra" by auto
  from gen_loop_prefill [OF inv r]
  have "sampled_at ?P 4 (g_trace st') \<or> (\<forall>e \<in> set (g_trace st'). \<not> is_sample e)" .
  then show ?thesis
  proof
    assume "\<forall>e \<in> set (g_trace st'). \<not> is_sample e"
    from first_sample_none [OF this] assms T show ?thesis by simp
  next
    assume "sampled_at ?P 4 (g_trace st')"
    then obtain pre tid post where
      s: "g_trace st' = pre @ Sample ?P tid # post" "\<forall>e \<in> set pre. \<not> is_sample e" "fed pre = 4 + ?P"
      unfolding sampled_at_def by blast
    from first_sample_found [OF s(2), of ?P tid post] s(1) assms T have p: "p = ?P" by simp
    from s(1) ex obtain pre' where pre: "pre = Eval 0 [0, 1, 2, 3] # pre'"
      by (cases pre) auto
    with s(2) have ns: "\<forall>e \<in> set pre'. \<not> is_sample e" by simp
    from pre s(1) have "tl (g_trace st') = pre' @ Sample ?P tid # post" by simp
    with first_sample_found [OF ns, of ?P tid post]
    have "prefill_events (tl (g_trace st')) = pre'" by simp
    moreover from pre s(3) have "fed pre' = ?P" by (simp add: fed_def eval_calls_simps)
    ultimately show ?thesis using p T by simp
  qed
qed

theorem n_past_after_prefill_witness:
  "first_sample_pos (g_trace (snd
     (gptj_generate demo_ext eot_graph 268435456 (toy_ctx 8) ''hi there'' (greedy 3 8) always_continue)))
     = Some 2 \<and>
   length (gpt_tokenize (vocab (toy_ctx 8)) (c_str ''hi there'')) = 2 \<and>
   prefill_events (tl (g_trace (snd
     (gptj_generate demo_ext eot_graph 268435456 (toy_ctx 8) ''hi there'' (greedy 3 8) always_continue))))
     = [Eval 0 [0, 1]] \<and>
   fed (prefill_events (tl (g_trace (snd
     (gptj_generate demo_ext eot_graph 268435456 (toy_ctx 8) ''hi there'' (greedy 3 8) always_continue)))))
     = 2"
proof -
  have f: "first_sample_pos (g_trace (snd
     (gptj_generate demo_ext eot_graph 268435456 (toy_ctx 8) ''hi there'' (greedy 3 8) always_continue)))
     = Some 2"
    by (simp add: toy_run_3 run_state_def first_sample_pos_def is_sample_def)
  have p: "prefill_events (tl (g_trace (snd
     (gptj_generate demo_ext eot_graph 268435456 (toy_ctx 8) ''hi there'' (greedy 3 8) always_continue))))
     = [Eval 0 [0, 1]]"
    by (simp add: toy_run_3 run_state_def prefill_events_def is_sample_def)
  from n_past_after_prefill [OF f] f p show ?thesis by simp
qed

lemma generate_start:
  assumes "- (2 ^ 31) \<le> n_ctx (hparams (model mc)) - int (length (gpt_tokenize (vocab mc) (c_str prompt)))"
  shows "\<exists>params' bound r.
           gptj_generate ext gc bs mc prompt params cb =
             gen_loop ext gc (model mc) params' (gpt_tokenize (vocab mc) (c_str prompt)) cb bound
               \<lparr>g_i = 0, g_n_past = 0, g_embd = [], g_logits = gc (model mc) [] 0 [0, 1, 2, 3],
                g_mem_per_token = ggml_used_mem ext 4 div 4, g_buf_size = bs, g_rng = r,
                g_processing_input = True, g_vocab = vocab mc, g_trace = [Eval 0 [0, 1, 2, 3]]\<rparr>"
proof -
  have n: "length [0, 1, 2, 3 :: int] = 4" by simp
  have e: "gptj_eval ext gc (model mc) [] 0 [0, 1, 2, 3] [] 0 bs =
             Inr (True, gc (model mc) [] 0 [0, 1, 2, 3], ggml_used_mem ext 4 div 4, bs)"
    unfolding gptj_eval_def Let_def n by simp
  from assms show ?thesis
    unfolding gptj_generate_def Let_def e by (simp del: gen_loop.simps) blast
qed

text \<open>
  Claim C10. Unless the subtraction that caps \<open>n_predict\<close> overflows, every call of
  \<open>gptj_generate\<close> first calls the evaluator once on the ids 0, 1, 2, 3 at position 0
  and enters the loop with \<open>i = 0\<close>, \<open>n_past = 0\<close>, nothing to evaluate and
  \<open>mem_per_token\<close> set by that call to the memory used for four tokens divided by four.
  The trace of the run starts with this call, and the next evaluator call, if there is
  one, is again at position 0. \<open>gptj_eval\<close> changes \<open>mem_per_token\<close> only when it was
  zero and the call succeeds.
\<close>

theorem warm_up_call:
  assumes "- (2 ^ 31) \<le> n_ctx (hparams (model mc)) - int (length (gpt_tokenize (vocab mc) (c_str prompt)))"
  shows "(\<exists>params' bound r.
            gptj_generate ext gc bs mc prompt params cb =
              gen_loop ext gc (model mc) params' (gpt_tokenize (vocab mc) (c_str prompt)) cb bound
                \<lparr>g_i = 0, g_n_past = 0, g_embd = [], g_logits = gc (model mc) [] 0 [0, 1, 2, 3],
                 g_mem_per_token = ggml_used_mem ext 4 div 4, g_buf_size = bs, g_rng = r,
                 g_processing_input = True, g_vocab = vocab mc, g_trace = [Eval 0 [0, 1, 2, 3]]\<rparr>) \<and>
         (\<exists>rest. g_trace (snd (gptj_generate ext gc bs mc prompt params cb)) = Eval 0 [0, 1, 2, 3] # rest \<and>
                 (\<forall>p b later. eval_calls rest = (p, b) # later \<longrightarrow> p = 0)) \<and>
         (\<forall>m hist p b w mpt bsz ok lg mpt' bsz'.
            gptj_eval ext gc m hist p b w mpt bsz = Inr (ok, lg, mpt', bsz') \<longrightarrow>
            mpt' = (if mpt = 0 \<and> ok then ggml_used_mem ext (length b) div length b else mpt))"
proof -
  from generate_start [OF assms, of ext gc bs params cb] obtain params' bound r where
    g: "gptj_generate ext gc bs mc prompt params cb =
         gen_loop ext gc (model mc) params' (gpt_tokenize (vocab mc) (c_str prompt)) cb bound
           \<lparr>g_i = 0, g_n_past = 0, g_embd = [], g_logits = gc (model mc) [] 0 [0, 1, 2, 3],
            g_mem_per_token = ggml_used_mem ext 4 div 4, g_buf_size = bs, g_rng = r,
            g_processing_input = True, g_vocab = vocab mc,
            g_trace = [Eval 0 [0, 1, 2, 3]]\<rparr>" (is "_ = gen_loop _ _ _ _ _ _ _ ?s0")
    by blast
  obtain out st' where r: "gen_loop ext gc (model mc) params' (gpt_tokenize (vocab mc) (c_str prompt)) cb bound ?s0 = (out, st')"
    by (cases "gen_loop ext gc (model mc) params' (gpt_tokenize (vocab mc) (c_str prompt)) cb bound ?s0") auto
  from gen_loop_first_eval [OF r] obtain extra where
    "g_trace st' = Eval 0 [0, 1, 2, 3] # extra" "\<forall>p b later. eval_calls extra = (p, b) # later \<longrightarrow> p = 0"
    by auto
  with g r have 2: "\<exists>rest. g_trace (snd (gptj_generate ext gc bs mc prompt params cb)) = Eval 0 [0, 1, 2, 3] # rest \<and>
                 (\<forall>p b later. eval_calls rest = (p, b) # later \<longrightarrow> p = 0)"
    by simp
  from g have 1: "\<exists>params' bound r.
            gptj_generate ext gc bs mc prompt params cb =
              gen_loop ext gc (model mc) params' (gpt_tokenize (vocab mc) (c_str prompt)) cb bound
                \<lparr>g_i = 0, g_n_past = 0, g_embd = [], g_logits = gc (model mc) [] 0 [0, 1, 2, 3],
                 g_mem_per_token = ggml_used_mem ext 4 div 4, g_buf_size = bs, g_rng = r,
                 g_processing_input = True, g_vocab = vocab mc, g_trace = [Eval 0 [0, 1, 2, 3]]\<rparr>"
    by blast
  have 3: "\<forall>m hist p b w mpt bsz ok lg mpt' bsz'.
            gptj_eval ext gc m hist p b w mpt bsz = Inr (ok, lg, mpt', bsz') \<longrightarrow>
            mpt' = (if mpt = 0 \<and> ok then ggml_used_mem ext (length b) div length b else mpt)"
    using gptj_eval_mem_per_token by blast
  from 1 2 3 show ?thesis by (intro conjI)
qed

theorem warm_up_call_witness:
  "- (2 ^ 31) \<le> n_ctx (hparams (model (toy_ctx 8)))
      - int (length (gpt_tokenize (vocab (toy_ctx 8)) (c_str ''hi there''))) \<and>
   g_trace (snd
     (gptj_generate demo_ext eot_graph 268435456 (toy_ctx 8) ''hi there'' (greedy 3 8) always_continue))
     = Eval 0 [0, 1, 2, 3] #
       [Eval 0 [0, 1], Sample 2 2, Callback ''<eot>'', Eval 2 [2], Sample 3 2,
        Callback ''<eot>'', Eval 3 [2], Sample 4 2, Callback ''<eot>''] \<and>
   ggml_used_mem demo_ext 4 div 4 = 1024 \<and>
   gptj_eval demo_ext eot_graph (toy_model 8) [] 0 [0, 1, 2, 3] [] 0 268435456
     = Inr (True, [0, 0, 1], 1024, 268435456) \<and>
   gptj_eval demo_ext eot_graph (toy_model 8) [(0, [0, 1, 2, 3])] 0 [0, 1] [0, 0, 1] 1024 268435456
     = Inr (True, [0, 0, 1], 1024, 268435456)"
proof -
  have h: "- (2 ^ 31) \<le> n_ctx (hparams (model (toy_ctx 8)))
      - int (length (gpt_tokenize (vocab (toy_ctx 8)) (c_str ''hi there'')))"
    by (simp add: toy_ctx_def toy_model_def toy_tok)
  note th = warm_up_call [OF h, of demo_ext eot_graph 268435456 "greedy 3 8" always_continue]
  from th [THEN conjunct2, THEN conjunct1] obtain rest where
    r: "g_trace (snd
     (gptj_generate demo_ext eot_graph 268435456 (toy_ctx 8) ''hi there'' (greedy 3 8) always_continue))
     = Eval 0 [0, 1, 2, 3] # rest" by blast
  then have rest: "rest = [Eval 0 [0, 1], Sample 2 2, Callback ''<eot>'', Eval 2 [2], Sample 3 2,
        Callback ''<eot>'', Eval 3 [2], Sample 4 2, Callback ''<eot>'']"
    by (simp add: toy_run_3 run_state_def)
  have u: "ggml_used_mem demo_ext 4 div 4 = 1024" by (simp add: demo_ext_def)
  have e1: "gptj_eval demo_ext eot_graph (toy_model 8) [] 0 [0, 1, 2, 3] [] 0 268435456
     = Inr (True, [0, 0, 1], 1024, 268435456)"
    by (simp add: gptj_eval_def Let_def demo_ext_def eot_graph_def)
  have e2: "gptj_eval demo_ext eot_graph (toy_model 8) [(0, [0, 1, 2, 3])] 0 [0, 1] [0, 0, 1] 1024 268435456
     = Inr (True, [0, 0, 1], 1024, 268435456)"
    by (simp add: gptj_eval_def Let_def demo_ext_def eot_graph_def)
  from h r rest u e1 e2 show ?thesis by simp
qed

lemma toy_sample_peak:
  assumes "partial_sort_spec (partial_sort ext)" and "discrete_distribution_spec (discrete_distribution ext)"
    and "0 < tmp" and "length lg = 3" and "lg ! 0 < lg ! 2" and "lg ! 1 < lg ! 2"
  shows "\<exists>r'. gpt_sample_top_k_top_p ext toy_vocab lg 1 tp tmp r = Inr (2, r')"
proof -
  have n: "1 \<le> card (dom (id_to_token toy_vocab))" "card (dom (id_to_token toy_vocab)) \<le> length lg"
    using assms(4) by (simp_all add: toy_size)
  from sample_top1 [OF assms(1,2,3) n, of tp r] obtain i where
    i: "i < 3" "gpt_sample_top_k_top_p ext toy_vocab lg 1 tp tmp r
                = Inr (int i, snd (discrete_distribution ext [1] r))"
       "\<forall>j < 3. lg ! j \<le> lg ! i"
    unfolding toy_size by blast
  from i(1) have "i = 0 \<or> i = 1 \<or> i = 2" by auto
  moreover from i(3) have "lg ! 2 \<le> lg ! i" by simp
  ultimately have "i = 2" using assms(5,6) by auto
  with i(2) show ?thesis by auto
qed

lemma predict_ok:
  assumes "\<forall>n. realloc_ok ext n" and "g_embd st \<noteq> []"
  shows "\<exists>st1. predict ext gc m st = Inr st1 \<and>
           g_logits st1 = gc m (eval_calls (g_trace st)) (g_n_past st) (g_embd st) \<and>
           g_rng st1 = g_rng st"
  using assms by (simp add: predict_def gptj_eval_def Let_def)

lemma emit_eot:
  assumes "cb (callback_args tr) ''<eot>''"
  shows "emit_tokens cb [2] toy_vocab tr = (False, toy_vocab, tr @ [Callback ''<eot>''])"
  using assms by (simp add: toy_eot toy_vocab_upd c_str_eot Let_def)

lemma toy_decode_step:
  assumes ps: "partial_sort_spec (partial_sort ext)"
    and dd: "discrete_distribution_spec (discrete_distribution ext)"
    and re: "\<forall>n. realloc_ok ext n" and pk: "peaks_at_2 gc m" and nv: "n_vocab (hparams m) = 3"
    and tk: "top_k params = 1" and tmp: "0 < temp params" and cb: "\<forall>earlier s. cb earlier s"
    and e: "g_embd st \<noteq> []" and i: "length embd_inp \<le> g_i st" "g_i st < INT_MAX"
    and v: "g_vocab st = toy_vocab"
  shows "\<exists>st'. gen_step ext gc m params embd_inp cb st = Inr st' \<and> g_embd st' = [2] \<and>
           g_i st' = g_i st + 1 \<and> g_vocab st' = toy_vocab \<and>
           callback_args (g_trace st') = callback_args (g_trace st) @ [''<eot>'']"
proof -
  from predict_ok [OF re e, of gc m] obtain st1 where
    p: "predict ext gc m st = Inr st1"
    and lg: "g_logits st1 = gc m (eval_calls (g_trace st)) (g_n_past st) (g_embd st)"
    by blast
  from predict_fields [of ext gc m st st1] p e
  have f1: "g_trace st1 = g_trace st @ [Eval (g_n_past st) (g_embd st)]" "g_i st1 = g_i st"
    "g_vocab st1 = g_vocab st" by auto
  from pk lg have peak: "length (g_logits st1) = 3" "g_logits st1 ! 0 < g_logits st1 ! 2"
    "g_logits st1 ! 1 < g_logits st1 ! 2"
    unfolding peaks_at_2_def by auto
  from toy_sample_peak [OF ps dd tmp peak, of "top_p params" "g_rng st1"] obtain r' where
    sm: "gpt_sample_top_k_top_p ext toy_vocab (g_logits st1) 1 (top_p params) (temp params) (g_rng st1) = Inr (2, r')"
    by blast
  let ?st2 = "st1\<lparr>g_processing_input := False, g_rng := r', g_embd := [2],
                   g_trace := g_trace st1 @ [Sample (g_n_past st1) 2]\<rparr>"
  from sm i(1) f1 v nv tk peak(1) have n: "next_tokens ext m params embd_inp st1 = Inr ?st2"
    by (simp add: next_tokens_def)
  let ?st3 = "?st2\<lparr>g_vocab := toy_vocab, g_trace := g_trace ?st2 @ [Callback ''<eot>'']\<rparr>\<lparr>g_i := g_i ?st2 + 1\<rparr>"
  from cb have "emit_tokens cb [2] toy_vocab (g_trace ?st2) = (False, toy_vocab, g_trace ?st2 @ [Callback ''<eot>''])"
    by (intro emit_eot) simp
  with f1 v i(2) have f: "finish cb ?st2 = Inr ?st3"
    by (simp add: finish_def Let_def)
  from p n f have "gen_step ext gc m params embd_inp cb st = Inr ?st3"
    by (simp add: gen_step_def)
  moreover have "g_embd ?st3 = [2] \<and> g_i ?st3 = g_i st + 1 \<and> g_vocab ?st3 = toy_vocab \<and>
           callback_args (g_trace ?st3) = callback_args (g_trace st) @ [''<eot>'']"
    using f1 by (simp add: callback_args_append callback_args_simps)
  ultimately show ?thesis by blast
qed

lemma toy_decode_loop:
  assumes ps: "partial_sort_spec (partial_sort ext)"
    and dd: "discrete_distribution_spec (discrete_distribution ext)"
    and re: "\<forall>n. realloc_ok ext n" and pk: "peaks_at_2 gc m" and nv: "n_vocab (hparams m) = 3"
    and tk: "top_k params = 1" and tmp: "0 < temp params" and cb: "\<forall>earlier s. cb earlier s"
    and b: "bound \<le> INT_MAX"
  shows "g_embd st \<noteq> [] \<Longrightarrow> length embd_inp \<le> g_i st \<Longrightarrow> g_i st \<le> bound \<Longrightarrow> g_vocab st = toy_vocab \<Longrightarrow>
         bound - g_i st = k \<Longrightarrow>
         \<exists>st'. gen_loop ext gc m params embd_inp cb bound st = (Returned True, st') \<and>
           callback_args (g_trace st') = callback_args (g_trace st) @ replicate k ''<eot>''"
proof (induction k arbitrary: st)
  case 0
  then have "\<not> g_i st < bound" by simp
  from gen_loop_done [OF this] show ?case by simp
next
  case (Suc k)
  then have lt: "g_i st < bound" by simp
  with b have "g_i st < INT_MAX" by simp
  from toy_decode_step [OF ps dd re pk nv tk tmp cb Suc.prems(1,2) this Suc.prems(4)] obtain st1 where
    s: "gen_step ext gc m params embd_inp cb st = Inr st1" "g_embd st1 = [2]" "g_i st1 = g_i st + 1"
       "g_vocab st1 = toy_vocab" "callback_args (g_trace st1) = callback_args (g_trace st) @ [''<eot>'']"
    by blast
  have "\<exists>st'. gen_loop ext gc m params embd_inp cb bound st1 = (Returned True, st') \<and>
           callback_args (g_trace st') = callback_args (g_trace st1) @ replicate k ''<eot>''"
  proof (rule Suc.IH)
    show "g_embd st1 \<noteq> []" using s(2) by simp
    show "length embd_inp \<le> g_i st1" using s(3) Suc.prems(2) by simp
    show "g_i st1 \<le> bound" using s(3) lt by simp
    show "g_vocab st1 = toy_vocab" by (rule s(4))
    show "bound - g_i st1 = k" using s(3) Suc.prems(5) by simp
  qed
  then obtain st' where
    "gen_loop ext gc m params embd_inp cb bound st1 = (Returned True, st')"
    "callback_args (g_trace st') = callback_args (g_trace st1) @ replicate k ''<eot>''" by blast
  with gen_loop_Inr [OF s(1) lt] s(5) show ?case by (simp add: replicate_app_Cons_same)
qed

lemma toy_prompt_step:
  assumes nb: "1 \<le> n_batch params" "n_batch params < 2 ^ 31"
    and st: "g_i st = 0" "g_embd st = []" "g_processing_input st"
  shows "\<exists>st'. gen_step ext gc m params [0, 1] cb st = Inr st' \<and> g_i st' = 2 \<and> g_embd st' = [0, 1] \<and>
           g_vocab st' = g_vocab st \<and> g_trace st' = g_trace st"
proof -
  from nb have sz: "1 \<le> size_t (n_batch params)" by (simp add: size_t_def)
  have fill: "fill_embd [0, 1] (n_batch params) 0 [] = [0, 1]"
    using sz by (simp add: fill_embd.simps [of _ _ 0] fill_embd.simps [of _ _ "Suc 0"] fill_embd.simps [of _ _ "Suc (Suc 0)"])
  let ?st1 = "st\<lparr>g_n_past := g_n_past st + length (g_embd st), g_embd := []\<rparr>"
  from st have p: "predict ext gc m st = Inr ?st1" by (simp add: predict_def)
  let ?st2 = "?st1\<lparr>g_embd := [0, 1], g_i := 1\<rparr>"
  from st fill have n: "next_tokens ext m params [0, 1] ?st1 = Inr ?st2"
    by (simp add: next_tokens_def Let_def INT_MAX_def)
  let ?st3 = "?st2\<lparr>g_vocab := g_vocab ?st2, g_trace := g_trace ?st2\<rparr>\<lparr>g_i := 2\<rparr>"
  from st have f: "finish cb ?st2 = Inr ?st3"
    by (simp add: finish_def Let_def INT_MAX_def)
  from p n f have "gen_step ext gc m params [0, 1] cb st = Inr ?st3" by (simp add: gen_step_def)
  then show ?thesis by (intro exI [of _ ?st3]) simp
qed

text \<open>
  Claim C1, amended. With the vocabulary \<open>hi\<close>, \<open>there\<close>, \<open><eot>\<close> and a forward pass whose
  logits are always highest for id 2, id 2 does not end the generation: for the prompt
  \<open>hi there\<close>, \<open>top_k = 1\<close>, a positive temperature, a batch size of at least 1, an
  \<open>n_predict\<close> that is not negative and a callback that always returns \<open>true\<close>,
  \<open>gptj_generate\<close> returns \<open>true\<close> after calling the callback with \<open><eot>\<close> as many times as
  the smaller of \<open>n_predict\<close> and \<open>n_ctx - 2\<close>. The end-of-text test of the loop compares
  with the id 50256.
\<close>

theorem sampled_id_2_does_not_stop:
  assumes ps: "partial_sort_spec (partial_sort ext)"
    and dd: "discrete_distribution_spec (discrete_distribution ext)"
    and re: "\<forall>n. realloc_ok ext n" and pk: "peaks_at_2 gc m" and nv: "n_vocab (hparams m) = 3"
    and nc: "2 \<le> n_ctx (hparams m)" "n_ctx (hparams m) < 2 ^ 31"
    and tk: "top_k params = 1" and tmp: "0 < temp params"
    and nb: "1 \<le> n_batch params" "n_batch params < 2 ^ 31"
    and np: "0 \<le> n_predict params" and cb: "\<forall>earlier s. cb earlier s"
  shows "fst (gptj_generate ext gc bs \<lparr>vocab = toy_vocab, model = m\<rparr> ''hi there'' params cb) = Returned True \<and>
         callback_args (g_trace (snd (gptj_generate ext gc bs \<lparr>vocab = toy_vocab, model = m\<rparr> ''hi there'' params cb)))
           = replicate (nat (min (n_predict params) (n_ctx (hparams m) - 2))) ''<eot>''"
proof -
  let ?mc = "\<lparr>vocab = toy_vocab, model = m\<rparr>"
  let ?np = "min (n_predict params) (n_ctx (hparams m) - 2)"
  let ?p1 = "if seed params < 0 then params\<lparr>seed := time_null ext\<rparr> else params"
  let ?p2 = "?p1\<lparr>n_predict := min (n_predict ?p1) (n_ctx (hparams m) - 2)\<rparr>"
  let ?bound = "2 + nat ?np"
  from np nc have np0: "0 \<le> ?np" by simp
  have p2: "top_k ?p2 = 1" "0 < temp ?p2" "1 \<le> n_batch ?p2" "n_batch ?p2 < 2 ^ 31" "n_predict ?p2 = ?np"
    using tk tmp nb by auto
  obtain ok lg mpt bsz where
    w: "gptj_eval ext gc m [] 0 [0, 1, 2, 3] [] 0 bs = Inr (ok, lg, mpt, bsz)"
    using gptj_eval_nonempty [of "[0, 1, 2, 3]" ext gc m "[]" 0 "[]" 0 bs] by auto
  let ?s0 = "\<lparr>g_i = 0, g_n_past = 0, g_embd = [], g_logits = lg, g_mem_per_token = mpt,
              g_buf_size = bsz, g_rng = mt19937 ext (seed ?p1), g_processing_input = True,
              g_vocab = toy_vocab, g_trace = [Eval 0 [0, 1, 2, 3]]\<rparr>"
  from np0 nc have sz: "size_t (2 + ?np) = ?bound"
    by (simp add: size_t_def nat_add_distrib)
  from w nc sz p2(5) have g: "gptj_generate ext gc bs ?mc ''hi there'' params cb
        = gen_loop ext gc m ?p2 [0, 1] cb ?bound ?s0"
    by (simp add: gptj_generate_def Let_def toy_tok del: min.absorb1 min.absorb2 min.absorb3 min.absorb4)
  from toy_prompt_step [OF p2(3,4), of ?s0 ext gc m cb] obtain s1 where
    s1: "gen_step ext gc m ?p2 [0, 1] cb ?s0 = Inr s1" "g_i s1 = 2" "g_embd s1 = [0, 1]"
        "g_vocab s1 = toy_vocab" "g_trace s1 = [Eval 0 [0, 1, 2, 3]]"
    by auto
  have "g_i ?s0 < ?bound" by simp
  from gen_loop_Inr [OF s1(1) this]
  have l1: "gen_loop ext gc m ?p2 [0, 1] cb ?bound ?s0 = gen_loop ext gc m ?p2 [0, 1] cb ?bound s1" .
  from nc have b: "?bound \<le> INT_MAX" by (simp add: INT_MAX_def)
  have "\<exists>st'. gen_loop ext gc m ?p2 [0, 1] cb ?bound s1 = (Returned True, st') \<and>
           callback_args (g_trace st') = callback_args (g_trace s1) @ replicate (nat ?np) ''<eot>''"
  proof (rule toy_decode_loop [OF ps dd re pk nv p2(1) p2(2) cb b])
    show "g_embd s1 \<noteq> []" using s1(3) by simp
    show "length [0, 1 :: int] \<le> g_i s1" using s1(2) by simp
    show "g_i s1 \<le> ?bound" using s1(2) by simp
    show "g_vocab s1 = toy_vocab" by (rule s1(4))
    show "?bound - g_i s1 = nat ?np" using s1(2) by simp
  qed
  then obtain st' where
    "gen_loop ext gc m ?p2 [0, 1] cb ?bound s1 = (Returned True, st')"
    "callback_args (g_trace st') = callback_args (g_trace s1) @ replicate (nat ?np) ''<eot>''" by blast
  with g l1 s1(5) show ?thesis by (simp add: callback_args_simps)
qed

theorem sampled_id_2_does_not_stop_witness:
  "partial_sort_spec (partial_sort demo_ext) \<and>
   discrete_distribution_spec (discrete_distribution demo_ext) \<and>
   (\<forall>n. realloc_ok demo_ext n) \<and> peaks_at_2 eot_graph (toy_model 8) \<and>
   n_vocab (hparams (toy_model 8)) = 3 \<and> n_ctx (hparams (toy_model 8)) = 8 \<and>
   top_k (greedy 1 8) = 1 \<and> temp (greedy 1 8) = 1 \<and> n_batch (greedy 1 8) = 8 \<and>
   n_predict (greedy 1 8) = 1 \<and> (\<forall>earlier s. always_continue earlier s) \<and>
   fst (gptj_generate demo_ext eot_graph 268435456 \<lparr>vocab = toy_vocab, model = toy_model 8\<rparr>
          ''hi there'' (greedy 1 8) always_continue) = Returned True \<and>
   callback_args (g_trace (snd
     (gptj_generate demo_ext eot_graph 268435456 \<lparr>vocab = toy_vocab, model = toy_model 8\<rparr>
        ''hi there'' (greedy 1 8) always_continue))) = [''<eot>'']"
proof -
  have re: "\<forall>n. realloc_ok demo_ext n" by (simp add: demo_ext_def)
  have pk: "peaks_at_2 eot_graph (toy_model 8)" by (simp add: peaks_at_2_def eot_graph_def)
  have nv: "n_vocab (hparams (toy_model 8)) = 3" by (simp add: toy_model_def)
  have nc: "2 \<le> n_ctx (hparams (toy_model 8))" "n_ctx (hparams (toy_model 8)) < 2 ^ 31"
    by (simp_all add: toy_model_def)
  have tk: "top_k (greedy 1 8) = 1" and tmp: "0 < temp (greedy 1 8)"
    and nb: "1 \<le> n_batch (greedy 1 8)" "n_batch (greedy 1 8) < 2 ^ 31"
    and np: "0 \<le> n_predict (greedy 1 8)"
    by (simp_all add: greedy_def)
  have cb: "\<forall>earlier s. always_continue earlier s" by (simp add: always_continue_def)
  note th = sampled_id_2_does_not_stop [OF demo_ext_specs(1,2) re pk nv nc tk tmp nb np cb, of 268435456]
  have n: "nat (min (n_predict (greedy 1 8)) (n_ctx (hparams (toy_model 8)) - 2)) = 1"
    by (simp add: greedy_def toy_model_def)
  have v: "n_ctx (hparams (toy_model 8)) = 8" "temp (greedy 1 8) = 1" "n_batch (greedy 1 8) = 8"
    "n_predict (greedy 1 8) = 1"
    by (simp_all add: toy_model_def greedy_def)
  from th have r: "fst (gptj_generate demo_ext eot_graph 268435456 \<lparr>vocab = toy_vocab, model = toy_model 8\<rparr>
          ''hi there'' (greedy 1 8) always_continue) = Returned True"
    "callback_args (g_trace (snd
     (gptj_generate demo_ext eot_graph 268435456 \<lparr>vocab = toy_vocab, model = toy_model 8\<rparr>
        ''hi there'' (greedy 1 8) always_continue))) = [''<eot>'']"
    unfolding n by simp_all
  show ?thesis
    by (intro conjI demo_ext_specs(1,2) re pk nv v tk cb r)
qed

text \<open>
  Claim C1 as stated fails: with \<open>n_predict = 3\<close> and a context of 8 positions the
  callback is called three times with \<open><eot>\<close>, not once.
\<close>

theorem sampled_id_2_three_callbacks_counterexample:
  "id_to_token toy_vocab 2 = Some ''<eot>'' \<and>
   eot_graph (toy_model 8) [] 0 [0, 1] = [0, 0, 1] \<and>
   gpt_tokenize toy_vocab (c_str ''hi there'') = [0, 1] \<and>
   fst (gptj_generate demo_ext eot_graph 268435456 (toy_ctx 8) ''hi there'' (greedy 3 8) always_continue)
     = Returned True \<and>
   callback_args (g_trace (snd
     (gptj_generate demo_ext eot_graph 268435456 (toy_ctx 8) ''hi there'' (greedy 3 8) always_continue)))
     = [''<eot>'', ''<eot>'', ''<eot>'']"
proof -
  have "id_to_token toy_vocab 2 = Some ''<eot>''" by (simp add: toy_vocab_def)
  moreover have "eot_graph (toy_model 8) [] 0 [0, 1] = [0, 0, 1]" by (simp add: eot_graph_def)
  ultimately show ?thesis
    by (simp add: toy_run_3 run_state_def callback_args_def toy_tok)
qed

lemma toy_run_batch1:
  "gptj_generate demo_ext eot_graph 268435456 (toy_ctx 8) ''hi there'' (greedy 1 1) always_continue
   = (Returned True,
      run_state 3 2 [2] 1 False [Eval 0 [0, 1, 2, 3], Eval 0 [0, 1], Sample 2 2, Callback ''<eot>''])"
proof -
  let ?step = "gen_step demo_ext eot_graph (toy_model 8) (greedy 1 1) [0, 1] always_continue"
  let ?loop = "gen_loop demo_ext eot_graph (toy_model 8) (greedy 1 1) [0, 1] always_continue 3"
  let ?s0 = "run_state 0 0 [] 0 True [Eval 0 [0, 1, 2, 3]]"
  let ?s1 = "run_state 2 0 [0, 1] 0 True [Eval 0 [0, 1, 2, 3]]"
  let ?s2 = "run_state 3 2 [2] 1 False [Eval 0 [0, 1, 2, 3], Eval 0 [0, 1], Sample 2 2, Callback ''<eot>'']"
  have 0: "?step ?s0 = Inr ?s1" by (simp add: toy_step run_state_def)
  have 1: "?step ?s1 = Inr ?s2" by (simp add: toy_step run_state_def)
  have "gptj_generate demo_ext eot_graph 268435456 (toy_ctx 8) ''hi there'' (greedy 1 1) always_continue
        = ?loop ?s0"
    by (simp add: toy_start toy_tok size_t_def)
  also have "\<dots> = ?loop ?s1" by (rule gen_loop_Inr [OF 0]) (simp add: run_state_def)
  also have "\<dots> = ?loop ?s2" by (rule gen_loop_Inr [OF 1]) (simp add: run_state_def)
  also have "\<dots> = (Returned True, ?s2)" by (rule gen_loop_done) (simp add: run_state_def)
  finally show ?thesis .
qed

text \<open>
  Claim C2 at \<open>n_batch = 1\<close>: the inner loop of the prompt branch tests
  \<^verbatim>\<open>embd.size() > params.n_batch\<close> after the push, so it stops at two ids, and the one
  evaluator call before the first sample gets both ids of \<open>hi there\<close>.
\<close>

theorem prefill_batch_exceeds_n_batch:
  "n_batch (greedy 1 1) = 1 \<and>
   gpt_tokenize toy_vocab (c_str ''hi there'') = [0, 1] \<and>
   gptj_generate demo_ext eot_graph 268435456 (toy_ctx 8) ''hi there'' (greedy 1 1) always_continue
     = (Returned True,
        run_state 3 2 [2] 1 False [Eval 0 [0, 1, 2, 3], Eval 0 [0, 1], Sample 2 2, Callback ''<eot>'']) \<and>
   eval_calls (prefill_events (tl (g_trace (snd
     (gptj_generate demo_ext eot_graph 268435456 (toy_ctx 8) ''hi there'' (greedy 1 1) always_continue)))))
     = [(0, [0, 1])]"
proof -
  have a: "n_batch (greedy 1 1) = 1" by (simp add: greedy_def)
  have b: "eval_calls (prefill_events (tl (g_trace (snd
     (gptj_generate demo_ext eot_graph 268435456 (toy_ctx 8) ''hi there'' (greedy 1 1) always_continue)))))
     = [(0, [0, 1])]"
    unfolding toy_run_batch1 by (simp add: run_state_def eval_calls_def prefill_events_def is_sample_def)
  show ?thesis by (intro conjI a toy_tok toy_run_batch1 b)
qed

lemma toy_run_negative:
  "gptj_generate demo_ext eot_graph 268435456 (toy_ctx 2) [] (greedy (- 1) 8) stop_at_fourth
   = (Returned True,
      run_state 3 3 [2] 4 False
        [Eval 0 [0, 1, 2, 3], Sample 0 2, Callback ''<eot>'', Eval 0 [2], Sample 1 2, Callback ''<eot>'',
         Eval 1 [2], Sample 2 2, Callback ''<eot>'', Eval 2 [2], Sample 3 2, Callback ''<eot>''])"
proof -
  let ?step = "gen_step demo_ext eot_graph (toy_model 2) (greedy (- 1) 8) [] stop_at_fourth"
  let ?loop = "gen_loop demo_ext eot_graph (toy_model 2) (greedy (- 1) 8) [] stop_at_fourth 18446744073709551615"
  let ?s0 = "run_state 0 0 [] 0 True [Eval 0 [0, 1, 2, 3]]"
  let ?s1 = "run_state 1 0 [2] 1 False [Eval 0 [0, 1, 2, 3], Sample 0 2, Callback ''<eot>'']"
  let ?s2 = "run_state 2 1 [2] 2 False [Eval 0 [0, 1, 2, 3], Sample 0 2, Callback ''<eot>'',
               Eval 0 [2], Sample 1 2, Callback ''<eot>'']"
  let ?s3 = "run_state 3 2 [2] 3 False [Eval 0 [0, 1, 2, 3], Sample 0 2, Callback ''<eot>'',
               Eval 0 [2], Sample 1 2, Callback ''<eot>'', Eval 1 [2], Sample 2 2, Callback ''<eot>'']"
  let ?s4 = "run_state 3 3 [2] 4 False [Eval 0 [0, 1, 2, 3], Sample 0 2, Callback ''<eot>'',
               Eval 0 [2], Sample 1 2, Callback ''<eot>'', Eval 1 [2], Sample 2 2, Callback ''<eot>'',
               Eval 2 [2], Sample 3 2, Callback ''<eot>'']"
  have 0: "?step ?s0 = Inr ?s1" by (simp add: toy_step run_state_def)
  have 1: "?step ?s1 = Inr ?s2" by (simp add: toy_step run_state_def)
  have 2: "?step ?s2 = Inr ?s3" by (simp add: toy_step run_state_def)
  have 3: "?step ?s3 = Inl (Returned True, ?s4)" by (simp add: toy_step run_state_def)
  have "gptj_generate demo_ext eot_graph 268435456 (toy_ctx 2) [] (greedy (- 1) 8) stop_at_fourth
        = ?loop ?s0"
    by (simp add: toy_start toy_tok_empty size_t_def)
  also have "\<dots> = ?loop ?s1" by (rule gen_loop_Inr [OF 0]) (simp add: run_state_def)
  also have "\<dots> = ?loop ?s2" by (rule gen_loop_Inr [OF 1]) (simp add: run_state_def)
  also have "\<dots> = ?loop ?s3" by (rule gen_loop_Inr [OF 2]) (simp add: run_state_def)
  also have "\<dots> = (Returned True, ?s4)" by (rule gen_loop_Inl [OF 3]) (simp add: run_state_def)
  finally show ?thesis .
qed

text \<open>
  Claim C3 at \<open>n_predict = -1\<close> with the empty prompt and a context of two positions:
  the bound of the loop, \<^verbatim>\<open>embd_inp.size() + params.n_predict\<close>, is computed in \<open>size_t\<close>
  and becomes \<open>2^64 - 1\<close>, so the run goes on until the callback stops it. Here the
  callback stops at its fourth call: four tokens are sampled, and the evaluator is
  called at cache position 2.
\<close>

theorem negative_n_predict_exceeds_context:
  "n_predict (greedy (- 1) 8) = - 1 \<and> n_ctx (hparams (model (toy_ctx 2))) = 2 \<and>
   gpt_tokenize (vocab (toy_ctx 2)) (c_str []) = [] \<and>
   gptj_generate demo_ext eot_graph 268435456 (toy_ctx 2) [] (greedy (- 1) 8) stop_at_fourth
     = (Returned True,
        run_state 3 3 [2] 4 False
          [Eval 0 [0, 1, 2, 3], Sample 0 2, Callback ''<eot>'', Eval 0 [2], Sample 1 2, Callback ''<eot>'',
           Eval 1 [2], Sample 2 2, Callback ''<eot>'', Eval 2 [2], Sample 3 2, Callback ''<eot>'']) \<and>
   length (filter is_sample (g_trace (snd
     (gptj_generate demo_ext eot_graph 268435456 (toy_ctx 2) [] (greedy (- 1) 8) stop_at_fourth)))) = 4 \<and>
   g_n_past (snd
     (gptj_generate demo_ext eot_graph 268435456 (toy_ctx 2) [] (greedy (- 1) 8) stop_at_fourth)) = 3"
proof -
  have a: "n_predict (greedy (- 1) 8) = - 1" by (simp add: greedy_def)
  have b: "n_ctx (hparams (model (toy_ctx 2))) = 2" by (simp add: toy_ctx_def toy_model_def)
  have c: "gpt_tokenize (vocab (toy_ctx 2)) (c_str []) = []" by (simp add: toy_ctx_def toy_tok_empty)
  have d: "length (filter is_sample (g_trace (snd
     (gptj_generate demo_ext eot_graph 268435456 (toy_ctx 2) [] (greedy (- 1) 8) stop_at_fourth)))) = 4"
    unfolding toy_run_negative by (simp add: run_state_def is_sample_def)
  have e: "g_n_past (snd
     (gptj_generate demo_ext eot_graph 268435456 (toy_ctx 2) [] (greedy (- 1) 8) stop_at_fourth)) = 3"
    unfolding toy_run_negative by (simp add: run_state_def)
  show ?thesis by (intro conjI a b c toy_run_negative d e)
qed

end
